theory Spec2Isabelle
  imports Main "HOL-Library.List_Lexorder" "HOL-Library.Char_ord"
begin

section \<open>Python string and dictionary primitives\<close>

text \<open>
  The sources are Python scripts working on \<open>str\<close> values with \<open>strip\<close>, \<open>split\<close>,
  \<open>replace\<close>, \<open>startswith\<close>, \<open>in\<close> and \<open>lower\<close>, and on \<open>dict\<close> values.
  A string is a \<open>char list\<close> of ASCII characters. The whitespace removed by \<open>strip()\<close> is
  the ASCII part of what \<open>str.isspace\<close> accepts.
\<close>

definition is_space :: "char \<Rightarrow> bool" where
  "is_space c = (c \<in> set [CHR 0x09, CHR 0x0A, CHR 0x0B, CHR 0x0C, CHR 0x0D,
                           CHR 0x1C, CHR 0x1D, CHR 0x1E, CHR 0x1F, CHR '' ''])"

definition strip :: "string \<Rightarrow> string" where
  "strip s = rev (dropWhile is_space (rev (dropWhile is_space s)))"

definition startswith :: "string \<Rightarrow> string \<Rightarrow> bool" where
  "startswith s p = (take (length p) s = p)"

text \<open>\<open>contains s p\<close> is Python's \<open>p in s\<close> on strings.\<close>

fun contains :: "string \<Rightarrow> string \<Rightarrow> bool" where
  "contains [] p = (p = [])"
| "contains (c # cs) p = (startswith (c # cs) p \<or> contains cs p)"

text \<open>
  \<open>split s sep\<close> is \<open>s.split(sep)\<close>: the separator is searched from the left, occurrences do
  not overlap, and \<open>n\<close> occurrences give \<open>n + 1\<close> parts. Every call in the sources passes a
  non-empty literal separator (Python raises \<open>ValueError\<close> on an empty one; here an empty
  separator never matches).
\<close>

function split_from :: "string \<Rightarrow> string \<Rightarrow> string \<Rightarrow> string list" where
  "split_from sep cur [] = [cur]"
| "split_from sep cur (c # cs) =
     (if sep \<noteq> [] \<and> startswith (c # cs) sep
      then cur # split_from sep [] (drop (length sep) (c # cs))
      else split_from sep (cur @ [c]) cs)"
  by pat_completeness auto
termination
  by (relation "measure (\<lambda>(sep, cur, s). length s)") auto

definition split :: "string \<Rightarrow> string \<Rightarrow> string list" where
  "split s sep = split_from sep [] s"

fun join :: "string \<Rightarrow> string list \<Rightarrow> string" where
  "join sep [] = []"
| "join sep [x] = x"
| "join sep (x # y # ys) = x @ sep @ join sep (y # ys)"

text \<open>
  \<open>replace s old new\<close> is \<open>s.replace(old, new)\<close> for a non-empty \<open>old\<close>: the non-overlapping
  occurrences found from the left are the ones \<open>split\<close> finds.
\<close>

definition replace :: "string \<Rightarrow> string \<Rightarrow> string \<Rightarrow> string" where
  "replace s old new = join new (split s old)"

definition lower_char :: "char \<Rightarrow> char" where
  "lower_char c =
     (let n = (of_char c :: nat) in if 65 \<le> n \<and> n \<le> 90 then char_of (n + 32) else c)"

definition lower :: "string \<Rightarrow> string" where
  "lower s = map lower_char s"

text \<open>
  A \<open>dict\<close> is an association list in insertion order with pairwise distinct keys.
  \<open>dict_set k v d\<close> is \<open>d[k] = v\<close>: an existing key keeps its place, a new key goes to
  the end. \<open>dict_get d k dflt\<close> is \<open>d.get(k, dflt)\<close>, and \<open>k in d\<close> is
  \<open>map_of d k \<noteq> None\<close>.
\<close>

type_synonym ('k, 'v) dict = "('k \<times> 'v) list"

fun dict_set :: "'k \<Rightarrow> 'v \<Rightarrow> ('k, 'v) dict \<Rightarrow> ('k, 'v) dict" where
  "dict_set k v [] = [(k, v)]"
| "dict_set k v ((k', v') # d) =
     (if k' = k then (k', v) # d else (k', v') # dict_set k v d)"

definition dict_get :: "('k, 'v) dict \<Rightarrow> 'k \<Rightarrow> 'v \<Rightarrow> 'v" where
  "dict_get d k dflt = (case map_of d k of None \<Rightarrow> dflt | Some v \<Rightarrow> v)"

section \<open>Automaton definitions\<close>

text \<open>
  The strings \<open>'dfa'\<close> and \<open>'nfa'\<close> that the scripts carry in \<open>automaton_type\<close>.
\<close>

datatype kind = Dfa | Nfa

text \<open>
  The value stored under a transition key: one state name (a \<open>str\<close>), or a sequence of
  state names (a \<open>tuple\<close> or a \<open>list\<close>; the two are not distinguished).
\<close>

datatype target = Single string | Many "string list"

text \<open>\<open>list(v)\<close> and \<open>tuple(v)\<close>: a \<open>str\<close> is iterated character by character.\<close>

fun seq_of :: "target \<Rightarrow> string list" where
  "seq_of (Single s) = map (\<lambda>c. [c]) s"
| "seq_of (Many xs) = xs"

text \<open>The states named by a transition value.\<close>

fun targets :: "target \<Rightarrow> string set" where
  "targets (Single n) = {n}"
| "targets (Many ns) = set ns"

text \<open>
  Modelled from the spec: the engine classes \<open>DFA\<close> and \<open>NFA\<close> of package \<open>python_fsa\<close>
  are not among the sources. Following the data model of the specification (an automaton
  definition is its kind, alphabet, states, initial state, final states and transitions),
  an automaton object is the class chosen together with the keyword arguments
  \<open>alphabet\<close>, \<open>states\<close>, \<open>initial\<close>, \<open>final\<close>, \<open>transitions\<close> that its constructor
  received, and its attributes hold the elements of these arguments. The two classes are
  taken to be unrelated, so that \<open>isinstance(automaton, DFA)\<close> holds for the objects built
  by \<open>DFA(...)\<close> only.
  The collection type \<open>'c\<close> is \<open>string set\<close> where the script passes a \<open>frozenset\<close> and
  \<open>string list\<close> (the elements in iteration order) where it passes a \<open>tuple\<close> or iterates.
  \<open>initial\<close> is \<open>None\<close> for Python's \<open>None\<close>.
\<close>

datatype 'c automaton =
    DFA (alphabet_of: 'c) (states_of: 'c) (initial_of: "string option") (final_of: 'c)
        (transitions_of: "(string \<times> string, target) dict")
  | NFA (alphabet_of: 'c) (states_of: 'c) (initial_of: "string option") (final_of: 'c)
        (transitions_of: "(string \<times> string, target) dict")

text \<open>
  The failures of the scripts, one constructor per raising or exiting branch, named after
  the error taxonomy of the specification; each carries what the message of the source names.
  \<open>ConstructionError\<close> is an exception raised inside a constructor of the engine.
\<close>

datatype error =
    InconsistentDeterminism string string "string list"
  | MalformedKey string
  | MalformedRecord string
  | UnknownState string string
  | UnknownSymbol string string
  | DuplicateTransition string string
  | ConstructionError
  | EOFError

text \<open>
  Modelled from the spec: a constructor call of the engine returns the automaton object or
  signals a construction error (external interfaces of the specification). Which
  definitions the constructors accept is not fixed by the sources, so it is a parameter:
  \<open>accepts\<close> holds of the definitions that the constructor accepts, and every function
  that calls a constructor takes it as its first argument.
\<close>

definition construct :: "('c automaton \<Rightarrow> bool) \<Rightarrow> 'c automaton \<Rightarrow> error + 'c automaton" where
  "construct accepts automaton =
     (if accepts automaton then Inr automaton else Inl ConstructionError)"

text \<open>
  Modelled from the spec: two engines for the concrete examples. The constructors of
  \<open>permissive\<close> check nothing. The constructors of \<open>enforcing\<close> signal a construction error
  unless the invariants of the data model hold: the initial state is a state, every final
  state is a state, every state and symbol of a transition is in the states and the
  alphabet, and a deterministic transition has a single state as its value. The argument
  \<open>elems\<close> gives the elements of a collection.
\<close>

definition permissive :: "'c automaton \<Rightarrow> bool" where
  "permissive automaton = True"

definition enforcing :: "('c \<Rightarrow> string set) \<Rightarrow> 'c automaton \<Rightarrow> bool" where
  "enforcing elems automaton =
     (initial_of automaton \<in> Some ` elems (states_of automaton)
      \<and> elems (final_of automaton) \<subseteq> elems (states_of automaton)
      \<and> (\<forall>item\<in>set (transitions_of automaton).
            fst (fst item) \<in> elems (states_of automaton)
            \<and> snd (fst item) \<in> elems (alphabet_of automaton)
            \<and> targets (snd item) \<subseteq> elems (states_of automaton)
            \<and> (is_DFA automaton \<longrightarrow> (case snd item of Single n \<Rightarrow> True | Many ns \<Rightarrow> False))))"

section \<open>The graph-text reconstructor: \<open>parse_dot_file\<close> of main3-0.py\<close>

text \<open>The local variables of \<open>parse_dot_file\<close> that its scan loop updates.\<close>

record scan =
  states :: "string set"
  alphabet :: "string set"
  transitions :: "(string \<times> string, string list) dict"
  initial_state :: "string option"
  final_states :: "string set"
  automaton_type :: kind

definition scan_init :: scan where
  "scan_init = \<lparr>states = {}, alphabet = {}, transitions = [], initial_state = None,
                 final_states = {}, automaton_type = Dfa\<rparr>"

text \<open>The body of \<open>for part in parts\<close> on a line declaring double-circle nodes.\<close>

definition add_final :: "scan \<Rightarrow> string \<Rightarrow> scan" where
  \<open>add_final st part =
     (if contains part ''doublecircle'' then
        (let state_name = strip (replace part ''node [shape = doublecircle]'' '''')
         in if state_name \<noteq> []
            then st\<lparr>final_states := insert state_name (final_states st),
                    states := insert state_name (states st)\<rparr>
            else st)
      else st)\<close>

text \<open>The body of the first \<open>for symbol in symbols\<close>.\<close>

definition add_symbol :: "scan \<Rightarrow> string \<Rightarrow> scan" where
  "add_symbol st symbol =
     (if symbol \<noteq> [] then st\<lparr>alphabet := insert symbol (alphabet st)\<rparr> else st)"

text \<open>The body of the second \<open>for symbol in symbols\<close>.\<close>

definition add_target :: "string \<Rightarrow> string \<Rightarrow> scan \<Rightarrow> string \<Rightarrow> scan" where
  "add_target from_state to_state st symbol =
     (let current_transitions = dict_get (transitions st) (from_state, symbol) [] @ [to_state];
          st' = st\<lparr>transitions :=
                     dict_set (from_state, symbol) current_transitions (transitions st)\<rparr>
      in if length current_transitions > 1 then st'\<lparr>automaton_type := Nfa\<rparr> else st')"

text \<open>The body of \<open>for line in lines\<close>.\<close>

definition scan_line :: "scan \<Rightarrow> string \<Rightarrow> scan" where
  \<open>scan_line st raw =
     (let line = strip raw in
      if startswith line ''node [shape = doublecircle]'' then
        foldl add_final st (split line '';'')
      else if startswith line ''node [shape = circle]'' then st
      else if contains line ''->'' \<and> \<not> startswith line ''null ->'' then
        (let parts = split line ''->'';
             from_state = strip (parts ! 0);
             to_part = strip (parts ! 1);
             label_match = split to_part ''label = "'';
             label_str = (if length label_match > 1
                          then hd (split (label_match ! 1) ''"'') else '''');
             to_state = (if length label_match > 1
                         then strip (replace (strip (label_match ! 0)) '' ['' '''')
                         else strip to_part);
             symbols = (if label_str \<noteq> [] then map strip (split label_str '','')
                        else ['''']);
             st1 = st\<lparr>states := insert to_state (insert from_state (states st))\<rparr>;
             st2 = foldl add_symbol st1 symbols
         in foldl (add_target from_state to_state) st2 symbols)
      else if startswith line ''null ->'' then
        (let name = strip (replace (strip (replace line ''null ->'' '''')) '';'' '''')
         in st\<lparr>initial_state := Some name, states := insert name (states st)\<rparr>)
      else st)\<close>

definition scan_source :: "string \<Rightarrow> scan" where
  "scan_source dot_source = foldl scan_line scan_init (split dot_source ''\<newline>'')"

text \<open>
  The loop that converts the accumulated target lists: \<open>processed\<close> is
  \<open>processed_transitions\<close>, the first argument the value of \<open>automaton_type\<close>. The
  \<open>ValueError\<close> of the deterministic branch is \<open>InconsistentDeterminism\<close>.
\<close>

fun process_transitions ::
  "kind \<Rightarrow> (string \<times> string, string list) dict \<Rightarrow> (string \<times> string, target) dict
     \<Rightarrow> error + (string \<times> string, target) dict" where
  "process_transitions ty [] processed = Inr processed"
| "process_transitions ty (((state, symbol), next_states_list) # rest) processed =
     (if ty = Dfa then
        (if length next_states_list \<noteq> 1
         then Inl (InconsistentDeterminism state symbol next_states_list)
         else process_transitions ty rest
                (dict_set (state, symbol) (Single (next_states_list ! 0)) processed))
      else process_transitions ty rest
             (dict_set (state, symbol)
                (Many (sorted_list_of_set (set next_states_list))) processed))"

text \<open>The loop that adds every state of the processed transitions to \<open>states\<close>.\<close>

definition close_step :: "string set \<Rightarrow> (string \<times> string) \<times> target \<Rightarrow> string set" where
  "close_step sts item =
     (case item of ((s, _), next_s) \<Rightarrow>
        (case next_s of
           Many ns \<Rightarrow> foldl (\<lambda>S n. insert n S) (insert s sts) ns
         | Single n \<Rightarrow> insert n (insert s sts)))"

definition close_states ::
  "string set \<Rightarrow> (string \<times> string, target) dict \<Rightarrow> string set" where
  "close_states sts processed = foldl close_step sts processed"

text \<open>
  \<open>parse_dot_file\<close>, from the text read from the file on; \<open>accepts\<close> is the engine. Every
  exception, also one raised by the constructor, is caught by the function, reported, and
  ends the program: the result \<open>Inl\<close>.
\<close>

definition parse_dot_file ::
  "(string set automaton \<Rightarrow> bool) \<Rightarrow> string \<Rightarrow> error + (string set automaton \<times> kind)" where
  "parse_dot_file accepts dot_source =
     (let st = scan_source dot_source in
      case process_transitions (automaton_type st) (transitions st) [] of
        Inl e \<Rightarrow> Inl e
      | Inr processed \<Rightarrow>
          (let sts = close_states (states st) processed in
           if automaton_type st = Dfa
           then (case construct accepts
                        (DFA (alphabet st) sts (initial_state st) (final_states st) processed) of
                   Inl e \<Rightarrow> Inl e
                 | Inr automaton \<Rightarrow> Inr (automaton, Dfa))
           else (case construct accepts
                        (NFA (alphabet st) sts (initial_state st) (final_states st) processed) of
                   Inl e \<Rightarrow> Inl e
                 | Inr automaton \<Rightarrow> Inr (automaton, Nfa))))"

text \<open>
  The lines that the third branch of the loop body takes (transition lines), and the
  source, the target and the symbols that this branch reads from such a line, as
  functions of the line.
\<close>

definition is_edge_line :: "string \<Rightarrow> bool" where
  \<open>is_edge_line raw =
     (\<not> startswith (strip raw) ''node [shape = doublecircle]''
      \<and> \<not> startswith (strip raw) ''node [shape = circle]''
      \<and> contains (strip raw) ''->'' \<and> \<not> startswith (strip raw) ''null ->'')\<close>

definition edge_from :: "string \<Rightarrow> string" where
  \<open>edge_from raw = strip (split (strip raw) ''->'' ! 0)\<close>

definition edge_label_match :: "string \<Rightarrow> string list" where
  \<open>edge_label_match raw = split (strip (split (strip raw) ''->'' ! 1)) ''label = "''\<close>

definition edge_to :: "string \<Rightarrow> string" where
  \<open>edge_to raw =
     (if length (edge_label_match raw) > 1
      then strip (replace (strip (edge_label_match raw ! 0)) '' ['' '''')
      else strip (strip (split (strip raw) ''->'' ! 1)))\<close>

definition edge_label :: "string \<Rightarrow> string" where
  \<open>edge_label raw =
     (if length (edge_label_match raw) > 1
      then hd (split (edge_label_match raw ! 1) ''"'') else '''')\<close>

definition edge_symbols :: "string \<Rightarrow> string list" where
  \<open>edge_symbols raw =
     (if edge_label raw \<noteq> [] then map strip (split (edge_label raw) '','') else [''''])\<close>

text \<open>
  The target entries that one line of the text adds for the pair \<open>k\<close>: one entry for each
  occurrence of the symbol of \<open>k\<close> in the label of a transition line whose source is the
  state of \<open>k\<close>.
\<close>

definition line_targets :: "string \<times> string \<Rightarrow> string \<Rightarrow> string list" where
  "line_targets k raw =
     (if is_edge_line raw \<and> edge_from raw = fst k
      then replicate (count_list (edge_symbols raw) (snd k)) (edge_to raw) else [])"

text \<open>
  Two invariants of the scan loop. The first relates \<open>automaton_type\<close> to the accumulated
  target lists: the keys are distinct, no list is empty, and the type is \<open>'nfa'\<close> exactly
  when some list has more than one entry. The second relates the symbols of the keys to
  the alphabet: the empty symbol is never in the alphabet, every other symbol of a key is.
\<close>

definition type_inv :: "scan \<Rightarrow> bool" where
  "type_inv st =
     (distinct (map fst (transitions st))
      \<and> (\<forall>k v. (k, v) \<in> set (transitions st) \<longrightarrow> v \<noteq> [])
      \<and> ((automaton_type st = Nfa) = (\<exists>k v. (k, v) \<in> set (transitions st) \<and> 1 < length v)))"

definition symbol_inv :: "scan \<Rightarrow> bool" where
  "symbol_inv st =
     (([] \<notin> alphabet st)
      \<and> (\<forall>s a v. ((s, a), v) \<in> set (transitions st) \<longrightarrow> a = [] \<or> a \<in> alphabet st))"

section \<open>The definition codec: \<open>serialize_automaton\<close> and \<open>deserialize_automaton\<close>\<close>

text \<open>
  The dictionary that \<open>serialize_automaton\<close> returns and \<open>deserialize_automaton\<close> reads:
  one field per key \<open>"type"\<close>, \<open>"alphabet"\<close>, \<open>"states"\<close>, \<open>"initial"\<close>, \<open>"final"\<close>,
  \<open>"transitions"\<close>.
\<close>

record persisted =
  data_type :: string
  data_alphabet :: "string list"
  data_states :: "string list"
  data_initial :: "string option"
  data_final :: "string list"
  data_transitions :: "(string, target) dict"

definition serialize_item ::
  "bool \<Rightarrow> (string, target) dict \<Rightarrow> (string \<times> string) \<times> target \<Rightarrow> (string, target) dict" where
  "serialize_item is_dfa d item =
     (case item of ((state, symbol), next_state_or_states) \<Rightarrow>
        (let key = state @ '','' @ symbol in
         if is_dfa then dict_set key next_state_or_states d
         else dict_set key (Many (seq_of next_state_or_states)) d))"

definition serialize_automaton :: "string list automaton \<Rightarrow> persisted" where
  "serialize_automaton automaton =
     \<lparr>data_type = (if is_DFA automaton then ''dfa'' else ''nfa''),
      data_alphabet = alphabet_of automaton,
      data_states = states_of automaton,
      data_initial = initial_of automaton,
      data_final = final_of automaton,
      data_transitions =
        foldl (serialize_item (is_DFA automaton)) [] (transitions_of automaton)\<rparr>"

text \<open>
  The loop of \<open>deserialize_automaton\<close> over \<open>data["transitions"].items()\<close>. The unpacking
  \<open>state, symbol = key.split(',')\<close> raises \<open>ValueError\<close> unless the split has exactly two
  parts: \<open>MalformedKey\<close>. The argument \<open>ty\<close> is \<open>data["type"]\<close>. After the loop
  the function calls the constructor of the engine \<open>accepts\<close>; \<open>main\<close> catches every
  exception of the call, reports it and exits.
\<close>

fun load_transitions ::
  "string \<Rightarrow> (string, target) dict \<Rightarrow> (string \<times> string, target) dict
     \<Rightarrow> error + (string \<times> string, target) dict" where
  "load_transitions ty [] tr = Inr tr"
| "load_transitions ty ((key, v) # rest) tr =
     (case split key '','' of
        [state, symbol] \<Rightarrow>
          (if ty = ''dfa''
           then load_transitions ty rest (dict_set (state, symbol) v tr)
           else load_transitions ty rest
                  (dict_set (state, symbol) (Many (seq_of v)) tr))
      | _ \<Rightarrow> Inl (MalformedKey key))"

definition deserialize_automaton ::
  "(string list automaton \<Rightarrow> bool) \<Rightarrow> persisted \<Rightarrow> error + string list automaton" where
  "deserialize_automaton accepts data =
     (case load_transitions (data_type data) (data_transitions data) [] of
        Inl e \<Rightarrow> Inl e
      | Inr tr \<Rightarrow>
          if data_type data = ''dfa''
          then construct accepts
                 (DFA (data_alphabet data) (data_states data) (data_initial data)
                      (data_final data) tr)
          else construct accepts
                 (NFA (data_alphabet data) (data_states data) (data_initial data)
                      (data_final data) tr))"

text \<open>
  What the loop of \<open>deserialize_automaton\<close> stores for one item of
  \<open>data["transitions"]\<close> whose key splits into exactly two parts.
\<close>

definition load_item :: "string \<Rightarrow> string \<times> target \<Rightarrow> (string \<times> string) \<times> target" where
  "load_item ty item =
     (case item of (key, v) \<Rightarrow>
        ((split key '','' ! 0, split key '','' ! 1),
         if ty = ''dfa'' then v else Many (seq_of v)))"

text \<open>
  What the loop of \<open>serialize_automaton\<close> stores for one item of
  \<open>automaton.transitions\<close>: the key \<open>f"{state},{symbol}"\<close> and its value.
\<close>

definition save_item :: "bool \<Rightarrow> (string \<times> string) \<times> target \<Rightarrow> string \<times> target" where
  "save_item is_dfa item =
     (case item of ((state, symbol), v) \<Rightarrow>
        (state @ '','' @ symbol, if is_dfa then v else Many (seq_of v)))"

section \<open>The flat transition-record builders\<close>

text \<open>
  The fields of a record \<open>t\<close>: \<open>tuple(s.strip() for s in t.split(','))\<close>, the pair
  \<open>(parts[0], parts[1])\<close> and the targets \<open>parts[2:]\<close>.
\<close>

definition record_parts :: "string \<Rightarrow> string list" where
  "record_parts t = map strip (split t '','')"

definition record_key :: "string \<Rightarrow> string \<times> string" where
  "record_key t = (record_parts t ! 0, record_parts t ! 1)"

definition record_targets :: "string \<Rightarrow> string list" where
  "record_targets t = drop 2 (record_parts t)"

text \<open>
  The loop \<open>for t in args.transitions\<close> of \<open>main\<close> in main3-0.py for \<open>--type dfa\<close>
  (main2-0.py and main_improved.py have the same loop). \<open>alph\<close> and \<open>sts\<close> are the tuples
  \<open>alphabet\<close> and \<open>states\<close>, \<open>tr\<close> is the dictionary \<open>transitions\<close>. Each
  \<open>sys.exit(1)\<close> is an error value.
\<close>

fun build_dfa_transitions ::
  "string list \<Rightarrow> string list \<Rightarrow> string list \<Rightarrow> (string \<times> string, string) dict
     \<Rightarrow> error + (string \<times> string, string) dict" where
  "build_dfa_transitions alph sts [] tr = Inr tr"
| "build_dfa_transitions alph sts (t # ts) tr =
     (let parts = map strip (split t '','') in
      if length parts \<noteq> 3 then Inl (MalformedRecord t)
      else
        (let state = parts ! 0; symbol = parts ! 1; next_state = parts ! 2 in
         if state \<notin> set sts then Inl (UnknownState t state)
         else if symbol \<notin> set alph then Inl (UnknownSymbol t symbol)
         else if next_state \<notin> set sts then Inl (UnknownState t next_state)
         else if map_of tr (state, symbol) \<noteq> None then Inl (DuplicateTransition state symbol)
         else build_dfa_transitions alph sts ts (dict_set (state, symbol) next_state tr)))"

text \<open>
  The same loop for \<open>--type nfa\<close>. The values are tuples, and \<open>+=\<close> on a tuple is
  concatenation.
\<close>

fun build_nfa_transitions ::
  "string list \<Rightarrow> string list \<Rightarrow> string list \<Rightarrow> (string \<times> string, string list) dict
     \<Rightarrow> error + (string \<times> string, string list) dict" where
  "build_nfa_transitions alph sts [] tr = Inr tr"
| "build_nfa_transitions alph sts (t # ts) tr =
     (let parts = map strip (split t '','') in
      if length parts < 3 then Inl (MalformedRecord t)
      else
        (let state = parts ! 0; symbol = parts ! 1;
             next_states_for_transition = drop 2 parts in
         if state \<notin> set sts then Inl (UnknownState t state)
         else if symbol \<notin> set alph then Inl (UnknownSymbol t symbol)
         else
           (case find (\<lambda>ns. ns \<notin> set sts) next_states_for_transition of
              Some ns \<Rightarrow> Inl (UnknownState t ns)
            | None \<Rightarrow>
                (case map_of tr (state, symbol) of
                   Some old \<Rightarrow>
                     build_nfa_transitions alph sts ts
                       (dict_set (state, symbol) (old @ next_states_for_transition) tr)
                 | None \<Rightarrow>
                     build_nfa_transitions alph sts ts
                       (dict_set (state, symbol) next_states_for_transition tr)))))"

text \<open>The checks that the \<open>nfa\<close> loop makes on one record; they do not read \<open>tr\<close>.\<close>

definition valid_nfa_record :: "string list \<Rightarrow> string list \<Rightarrow> string \<Rightarrow> bool" where
  "valid_nfa_record alph sts t =
     (3 \<le> length (record_parts t)
      \<and> fst (record_key t) \<in> set sts
      \<and> snd (record_key t) \<in> set alph
      \<and> set (record_targets t) \<subseteq> set sts)"

text \<open>
  The loop \<open>while True\<close> of \<open>main\<close> in fsm_creator.py that reads the transitions, for
  \<open>automaton_type == 'dfa'\<close>. The third argument lists the lines that \<open>input()\<close> returns,
  one per prompt; a rejected line prints a message and the loop goes on (\<open>continue\<close>);
  the line \<open>done\<close> ends it. When the input ends before \<open>done\<close>, \<open>input()\<close> raises
  \<open>EOFError\<close>.
\<close>

fun enter_dfa_transitions ::
  "string list \<Rightarrow> string list \<Rightarrow> string list \<Rightarrow> (string \<times> string, string) dict
     \<Rightarrow> error + (string \<times> string, string) dict" where
  "enter_dfa_transitions alph sts [] tr = Inl EOFError"
| "enter_dfa_transitions alph sts (inp # rest) tr =
     (let transition_input = strip (strip inp) in
      if lower transition_input = ''done'' then Inr tr
      else
        (let parts = map strip (split transition_input '','') in
         if length parts < 3 then enter_dfa_transitions alph sts rest tr
         else
           (let from_state = parts ! 0; symbol = parts ! 1; to_states_input = drop 2 parts in
            if from_state \<notin> set sts then enter_dfa_transitions alph sts rest tr
            else if symbol \<notin> set alph then enter_dfa_transitions alph sts rest tr
            else if \<not> list_all (\<lambda>ts. ts \<in> set sts) to_states_input
              then enter_dfa_transitions alph sts rest tr
            else if length to_states_input > 1 then enter_dfa_transitions alph sts rest tr
            else enter_dfa_transitions alph sts rest
                   (dict_set (from_state, symbol) (to_states_input ! 0) tr))))"

section \<open>Concrete inputs\<close>

text \<open>
  A graph text with \<open>q1\<close> on the double-circle line, the start edge \<open>null -> q0\<close> and four
  labelled edges.
\<close>

definition scenario1 :: string where
  \<open>scenario1 =
     ''digraph finite_state_machine {\<newline>    rankdir=LR;\<newline>    node [shape = doublecircle] q1;\<newline>    node [shape = circle];\<newline>    null -> q0;\<newline>    q0 -> q0 [label = "0"];\<newline>    q0 -> q1 [label = "1"];\<newline>    q1 -> q1 [label = "0"];\<newline>    q1 -> q0 [label = "1"];\<newline>}\<newline>''\<close>

section \<open>Facts about dictionaries\<close>

lemma map_of_dict_set: "map_of (dict_set k v d) = (map_of d)(k \<mapsto> v)"
  by (induction d) (auto simp: fun_eq_iff)

lemma map_fst_dict_set:
  "map fst (dict_set k v d) = (if k \<in> set (map fst d) then map fst d else map fst d @ [k])"
  by (induction d) (force split: if_splits)+

lemma keys_dict_set: "set (map fst (dict_set k v d)) = insert k (set (map fst d))"
  by (auto simp: map_fst_dict_set)

lemma distinct_dict_set:
  "distinct (map fst d) \<Longrightarrow> distinct (map fst (dict_set k v d))"
  by (simp add: map_fst_dict_set)

lemma dict_set_fresh: "k \<notin> set (map fst d) \<Longrightarrow> dict_set k v d = d @ [(k, v)]"
  by (induction d) auto

lemma set_dict_set_fresh:
  "k \<notin> set (map fst d) \<Longrightarrow> set (dict_set k v d) = insert (k, v) (set d)"
  by (simp add: dict_set_fresh)

lemma set_dict_set_subset: "set (dict_set k v d) \<subseteq> insert (k, v) (set d)"
  by (induction d) (auto split: if_splits)

lemma dict_set_mem: "(k, v) \<in> set (dict_set k v d)"
  by (induction d) auto

lemma dict_set_other:
  "k' \<noteq> k \<Longrightarrow> ((k', v') \<in> set (dict_set k v d)) = ((k', v') \<in> set d)"
  by (induction d) (auto split: if_splits)

lemma dict_set_same:
  "distinct (map fst d) \<Longrightarrow> (k, v') \<in> set (dict_set k v d) \<Longrightarrow> v' = v"
proof -
  assume d: "distinct (map fst d)" and m: "(k, v') \<in> set (dict_set k v d)"
  from d have "distinct (map fst (dict_set k v d))" by (rule distinct_dict_set)
  with m have "map_of (dict_set k v d) k = Some v'" by simp
  then show ?thesis by (simp add: map_of_dict_set)
qed

section \<open>Facts about splitting\<close>

lemma split_from_not_Nil: "split_from sep cur s \<noteq> []"
  by (induction sep cur s rule: split_from.induct) auto

lemma join_Cons: "xs \<noteq> [] \<Longrightarrow> join sep (x # xs) = x @ sep @ join sep xs"
  by (cases xs) auto

lemma length_split_from_char:
  "length (split_from [c] cur s) = Suc (count_list s c)"
proof (induction s arbitrary: cur)
  case Nil
  then show ?case by simp
next
  case (Cons x s)
  then show ?case by (simp add: startswith_def)
qed

lemma split_from_no_sep:
  "c \<notin> set s \<Longrightarrow> split_from [c] cur s = [cur @ s]"
proof (induction s arbitrary: cur)
  case Nil
  then show ?case by simp
next
  case (Cons x s)
  then show ?case by (auto simp: startswith_def)
qed

lemma split_from_one_sep:
  "c \<notin> set s \<Longrightarrow> c \<notin> set a \<Longrightarrow> split_from [c] cur (s @ c # a) = [cur @ s, a]"
proof (induction s arbitrary: cur)
  case Nil
  then show ?case by (simp add: startswith_def split_from_no_sep)
next
  case (Cons x s)
  then show ?case by (auto simp: startswith_def)
qed

lemma join_split_from: "join sep (split_from sep cur s) = cur @ s"
proof (induction sep cur s rule: split_from.induct)
  case (1 sep cur)
  then show ?case by simp
next
  case (2 sep cur c cs)
  show ?case
  proof (cases "sep \<noteq> [] \<and> startswith (c # cs) sep")
    case True
    then have "take (length sep) (c # cs) = sep" by (simp add: startswith_def)
    then have eq: "sep @ drop (length sep) (c # cs) = c # cs"
      by (metis append_take_drop_id)
    have "split_from sep cur (c # cs) = cur # split_from sep [] (drop (length sep) (c # cs))"
      using True by simp
    then have "join sep (split_from sep cur (c # cs))
                 = cur @ sep @ join sep (split_from sep [] (drop (length sep) (c # cs)))"
      by (simp only: join_Cons[OF split_from_not_Nil])
    also have "\<dots> = cur @ sep @ drop (length sep) (c # cs)"
      using 2(1)[OF True] by simp
    finally show ?thesis using eq by simp
  next
    case False
    then have "split_from sep cur (c # cs) = split_from sep (cur @ [c]) cs" by auto
    with 2(2)[OF False] show ?thesis by simp
  qed
qed

lemma join_split: "join sep (split s sep) = s"
  by (simp add: split_def join_split_from)

lemma length_split_char: "length (split s [c]) = Suc (count_list s c)"
  by (simp add: split_def length_split_from_char)

lemma split_key:
  "CHR '','' \<notin> set s \<Longrightarrow> CHR '','' \<notin> set a \<Longrightarrow> split (s @ '','' @ a) '','' = [s, a]"
  using split_from_one_sep[of "CHR '',''" s a "[]"] by (simp add: split_def)

lemma split_two_parts:
  "split k sep = [s, a] \<Longrightarrow> k = s @ sep @ a"
  using join_split[of sep k] by simp

text \<open>
  The index reads of \<open>scan_line\<close> are in range: a line that contains the separator splits
  into at least two parts, so \<open>parts[1]\<close> exists whenever \<open>'->' in line\<close> holds.
\<close>

lemma contains_split_from:
  "sep \<noteq> [] \<Longrightarrow> contains s sep \<Longrightarrow> 2 \<le> length (split_from sep cur s)"
proof (induction sep cur s rule: split_from.induct)
  case (1 sep cur)
  then show ?case by simp
next
  case (2 sep cur c cs)
  show ?case
  proof (cases "startswith (c # cs) sep")
    case True
    have "split_from sep [] (drop (length sep) (c # cs)) \<noteq> []" by (rule split_from_not_Nil)
    then have "1 \<le> length (split_from sep [] (drop (length sep) (c # cs)))"
      by (cases "split_from sep [] (drop (length sep) (c # cs))") auto
    moreover have "split_from sep cur (c # cs)
                     = cur # split_from sep [] (drop (length sep) (c # cs))"
      using True 2(3) by simp
    ultimately show ?thesis by simp
  next
    case False
    with 2(4) have "contains cs sep" by simp
    moreover have "split_from sep cur (c # cs) = split_from sep (cur @ [c]) cs"
      using False by simp
    ultimately show ?thesis using 2(2)[OF _ 2(3)] False by simp
  qed
qed

lemma contains_split: "sep \<noteq> [] \<Longrightarrow> contains s sep \<Longrightarrow> 2 \<le> length (split s sep)"
  by (simp add: split_def contains_split_from)

text \<open>
  The customary Graphviz form of the double-circle line, with a semicolon after the
  attribute list, is recognised as such a line but gives no final state: the state names
  are in parts that do not contain \<open>doublecircle\<close>.
\<close>

lemma doublecircle_with_semicolon:
  "scan_line scan_init ''node [shape = doublecircle]; q1;'' = scan_init"
  by code_simp

section \<open>Facts about the codec loops\<close>

lemma split_two_nth:
  "length (split k '','') = 2 \<Longrightarrow> split k '','' = [split k '','' ! 0, split k '','' ! 1]"
  by (cases "split k '',''"; cases "tl (split k '','')") auto

lemma two_part_key:
  "length (split k '','') = 2 \<Longrightarrow> k = split k '','' ! 0 @ '','' @ split k '','' ! 1"
  using split_two_parts[OF split_two_nth] by blast

lemma load_item_key_inj:
  assumes "length (split k '','') = 2" "length (split k' '','') = 2"
    and "fst (load_item ty (k, v)) = fst (load_item ty (k', v'))"
  shows "k = k'"
  using two_part_key[OF assms(1)] two_part_key[OF assms(2)] assms(3)
  by (simp add: load_item_def)

lemma load_transitions_step:
  "length (split key '','') = 2 \<Longrightarrow>
     load_transitions ty ((key, v) # rest) tr =
       load_transitions ty rest
         (dict_set (fst (load_item ty (key, v))) (snd (load_item ty (key, v))) tr)"
  using split_two_nth[of key]
  by (cases "split key '',''"; cases "tl (split key '','')") (auto simp: load_item_def)

lemma load_transitions_bad:
  "length (split key '','') \<noteq> 2 \<Longrightarrow>
     load_transitions ty ((key, v) # rest) tr = Inl (MalformedKey key)"
  by (auto split: list.splits)

lemma load_transitions_ok:
  assumes "distinct (map fst (pre @ d))"
    and "\<forall>k\<in>set (map fst (pre @ d)). length (split k '','') = 2"
  shows "load_transitions ty d (map (load_item ty) pre) = Inr (map (load_item ty) (pre @ d))"
  using assms
proof (induction d arbitrary: pre)
  case Nil
  then show ?case by simp
next
  case (Cons item d)
  obtain key v where item: "item = (key, v)" by (cases item)
  from Cons.prems(2) have two: "length (split key '','') = 2" by (simp add: item)
  have fresh: "fst (load_item ty (key, v)) \<notin> set (map fst (map (load_item ty) pre))"
  proof
    assume "fst (load_item ty (key, v)) \<in> set (map fst (map (load_item ty) pre))"
    then obtain k' v' where mem: "(k', v') \<in> set pre"
      and eq: "fst (load_item ty (key, v)) = fst (load_item ty (k', v'))"
      by auto
    from mem Cons.prems(2) have "length (split k' '','') = 2" by force
    from load_item_key_inj[OF two this eq] have "key = k'" .
    with mem Cons.prems(1) show False by (force simp: item)
  qed
  have "load_transitions ty (item # d) (map (load_item ty) pre)
          = load_transitions ty d (map (load_item ty) (pre @ [item]))"
    using dict_set_fresh[OF fresh] by (simp add: item load_transitions_step[OF two] del: load_transitions.simps)
  also have "\<dots> = Inr (map (load_item ty) ((pre @ [item]) @ d))"
    using Cons.prems by (intro Cons.IH) auto
  finally show ?case by simp
qed

lemma load_transitions_total:
  "\<forall>k\<in>set (map fst d). length (split k '','') = 2 \<Longrightarrow> \<exists>tr'. load_transitions ty d tr = Inr tr'"
proof (induction d arbitrary: tr)
  case Nil
  then show ?case by simp
next
  case (Cons item d)
  obtain key v where item: "item = (key, v)" by (cases item)
  from Cons.prems have two: "length (split key '','') = 2" by (simp add: item)
  from Cons show ?case
    by (simp add: item load_transitions_step[OF two] del: load_transitions.simps)
qed

lemma load_transitions_fails:
  "\<exists>k\<in>set (map fst d). length (split k '','') \<noteq> 2 \<Longrightarrow>
     \<exists>k\<in>set (map fst d). load_transitions ty d tr = Inl (MalformedKey k)
        \<and> length (split k '','') \<noteq> 2"
proof (induction d arbitrary: tr)
  case Nil
  then show ?case by simp
next
  case (Cons item d)
  obtain key v where item: "item = (key, v)" by (cases item)
  show ?case
  proof (cases "length (split key '','') = 2")
    case True
    with Cons.prems have "\<exists>k\<in>set (map fst d). length (split k '','') \<noteq> 2"
      by (auto simp: item)
    from Cons.IH[OF this] show ?thesis
      by (auto simp: item load_transitions_step[OF True] simp del: load_transitions.simps)
  next
    case False
    then show ?thesis
      by (simp add: item load_transitions_bad del: load_transitions.simps)
  qed
qed

lemma length_split_comma: "length (split k '','') = Suc (count_list k (CHR '',''))"
  using length_split_char[of k "CHR '',''"] by simp

lemma deserialize_automaton_Inl:
  "load_transitions (data_type data) (data_transitions data) [] = Inl e \<Longrightarrow>
     deserialize_automaton accepts data = Inl e"
  by (simp add: deserialize_automaton_def)

lemma deserialize_automaton_Inr:
  "load_transitions (data_type data) (data_transitions data) [] = Inr tr \<Longrightarrow>
     deserialize_automaton accepts data =
       construct accepts
         ((if data_type data = ''dfa'' then DFA else NFA)
            (data_alphabet data) (data_states data) (data_initial data) (data_final data) tr)"
  by (simp add: deserialize_automaton_def)

lemma construct_Inl: "(construct accepts a = Inl e) = (\<not> accepts a \<and> e = ConstructionError)"
  by (auto simp: construct_def)

lemma construct_Inr: "(construct accepts a = Inr b) = (accepts a \<and> b = a)"
  by (auto simp: construct_def)

lemma serialize_item_save:
  "serialize_item b d item = dict_set (fst (save_item b item)) (snd (save_item b item)) d"
  by (auto simp: serialize_item_def save_item_def Let_def split: prod.splits)

lemma save_item_split:
  "CHR '','' \<notin> set s \<Longrightarrow> CHR '','' \<notin> set a \<Longrightarrow>
     split (fst (save_item b ((s, a), v))) '','' = [s, a]"
  using split_key[of s a] by (simp add: save_item_def)

lemma save_item_key_inj:
  assumes "CHR '','' \<notin> set s" "CHR '','' \<notin> set a" "CHR '','' \<notin> set s'" "CHR '','' \<notin> set a'"
    and "fst (save_item b ((s, a), v)) = fst (save_item b ((s', a'), v'))"
  shows "(s, a) = (s', a')"
  using save_item_split[OF assms(1,2), of b v] save_item_split[OF assms(3,4), of b v'] assms(5)
  by simp

lemma serialize_fold:
  assumes "distinct (map fst (pre @ d))"
    and "\<And>s a v. ((s, a), v) \<in> set (pre @ d) \<Longrightarrow> CHR '','' \<notin> set s \<and> CHR '','' \<notin> set a"
  shows "foldl (serialize_item b) (map (save_item b) pre) d = map (save_item b) (pre @ d)"
  using assms
proof (induction d arbitrary: pre)
  case Nil
  then show ?case by simp
next
  case (Cons item d)
  obtain s a v where item: "item = ((s, a), v)" by (cases item) auto
  from Cons.prems(2)[of s a v] have free: "CHR '','' \<notin> set s" "CHR '','' \<notin> set a"
    by (auto simp: item)
  have fresh: "fst (save_item b item) \<notin> set (map fst (map (save_item b) pre))"
  proof
    assume "fst (save_item b item) \<in> set (map fst (map (save_item b) pre))"
    then obtain s' a' v' where mem: "((s', a'), v') \<in> set pre"
      and eq: "fst (save_item b ((s, a), v)) = fst (save_item b ((s', a'), v'))"
      by (auto simp: item)
    from mem Cons.prems(2)[of s' a' v'] have "CHR '','' \<notin> set s'" "CHR '','' \<notin> set a'"
      by auto
    from save_item_key_inj[OF free this eq] have "(s, a) = (s', a')" .
    with mem Cons.prems(1) show False by (force simp: item)
  qed
  have "foldl (serialize_item b) (map (save_item b) pre) (item # d)
          = foldl (serialize_item b) (map (save_item b) (pre @ [item])) d"
    using dict_set_fresh[OF fresh] by (simp add: serialize_item_save)
  also have "\<dots> = map (save_item b) ((pre @ [item]) @ d)"
    using Cons.prems by (intro Cons.IH) auto
  finally show ?case by simp
qed

lemma load_save_item:
  assumes "CHR '','' \<notin> set s" "CHR '','' \<notin> set a"
    and "\<not> b \<longrightarrow> (\<exists>ns. v = Many ns)"
  shows "load_item (if b then ''dfa'' else ''nfa'') (save_item b ((s, a), v)) = ((s, a), v)"
  using assms split_key[OF assms(1,2)]
  by (auto simp: load_item_def save_item_def)

lemma roundtrip_transitions:
  assumes "distinct (map fst tr)"
    and "\<And>s a v. ((s, a), v) \<in> set tr \<Longrightarrow> CHR '','' \<notin> set s \<and> CHR '','' \<notin> set a"
    and "\<And>k v. \<not> b \<Longrightarrow> (k, v) \<in> set tr \<Longrightarrow> \<exists>ns. v = Many ns"
  shows "load_transitions (if b then ''dfa'' else ''nfa'') (foldl (serialize_item b) [] tr) []
           = Inr tr"
proof -
  let ?ty = "if b then ''dfa'' else ''nfa''"
  have saved: "foldl (serialize_item b) [] tr = map (save_item b) tr"
    using serialize_fold[of "[]" tr b] assms(1,2) by simp
  have inj: "inj_on (\<lambda>item. fst (save_item b item)) (set tr)"
  proof (rule inj_onI)
    fix x y assume x: "x \<in> set tr" and y: "y \<in> set tr"
      and eq: "fst (save_item b x) = fst (save_item b y)"
    obtain s a v where xx: "x = ((s, a), v)" by (cases x) auto
    obtain s' a' v' where yy: "y = ((s', a'), v')" by (cases y) auto
    from x y assms(2)[of s a v] assms(2)[of s' a' v']
    have "CHR '','' \<notin> set s" "CHR '','' \<notin> set a"
      "CHR '','' \<notin> set s'" "CHR '','' \<notin> set a'" by (auto simp: xx yy)
    from save_item_key_inj[OF this] eq have k: "(s, a) = (s', a')" by (simp add: xx yy)
    from assms(1) x y k show "x = y"
      by (metis xx yy eq_key_imp_eq_value)
  qed
  have "map fst (map (save_item b) tr) = map (\<lambda>item. fst (save_item b item)) tr" by simp
  moreover have "distinct tr" using assms(1) by (simp add: distinct_map)
  ultimately have dist: "distinct (map fst ([] @ map (save_item b) tr))"
    using inj by (simp add: distinct_map comp_def)
  have two: "\<forall>k\<in>set (map fst ([] @ map (save_item b) tr)). length (split k '','') = 2"
  proof
    fix k assume "k \<in> set (map fst ([] @ map (save_item b) tr))"
    then obtain s a v where m: "((s, a), v) \<in> set tr" and k: "k = fst (save_item b ((s, a), v))"
      by auto
    from assms(2)[OF m] have "CHR '','' \<notin> set s" "CHR '','' \<notin> set a" by auto
    from save_item_split[OF this] show "length (split k '','') = 2" by (simp add: k)
  qed
  have "load_transitions ?ty (map (save_item b) tr) (map (load_item ?ty) [])
          = Inr (map (load_item ?ty) ([] @ map (save_item b) tr))"
    using dist two by (rule load_transitions_ok)
  moreover have "map (load_item ?ty) (map (save_item b) tr) = tr"
  proof -
    have "\<And>x. x \<in> set tr \<Longrightarrow> load_item ?ty (save_item b x) = x"
    proof -
      fix x assume x: "x \<in> set tr"
      obtain s a v where xx: "x = ((s, a), v)" by (cases x) auto
      from x assms(2)[of s a v] have f: "CHR '','' \<notin> set s" "CHR '','' \<notin> set a"
        by (auto simp: xx)
      from x assms(3)[of "(s, a)" v] have "\<not> b \<longrightarrow> (\<exists>ns. v = Many ns)" by (auto simp: xx)
      from load_save_item[OF f this] show "load_item ?ty (save_item b x) = x" by (simp add: xx)
    qed
    then show ?thesis by (simp add: map_idI)
  qed
  ultimately show ?thesis by (simp add: saved)
qed

lemma roundtrip_eq:
  assumes "distinct (map fst (transitions_of d))"
    and "\<And>s a v. ((s, a), v) \<in> set (transitions_of d)
           \<Longrightarrow> CHR '','' \<notin> set s \<and> CHR '','' \<notin> set a"
    and "\<And>k v. \<not> is_DFA d \<Longrightarrow> (k, v) \<in> set (transitions_of d) \<Longrightarrow> \<exists>ns. v = Many ns"
  shows "deserialize_automaton accepts (serialize_automaton d) = construct accepts d"
proof (cases d)
  case (DFA al st i f tr)
  have "load_transitions (if True then ''dfa'' else ''nfa'') (foldl (serialize_item True) [] tr) []
          = Inr tr"
  proof (rule roundtrip_transitions)
    show "distinct (map fst tr)" using assms(1) DFA by simp
    show "\<And>s a v. ((s, a), v) \<in> set tr \<Longrightarrow> CHR '','' \<notin> set s \<and> CHR '','' \<notin> set a"
      using assms(2) DFA by simp
    show "\<And>k v. \<not> True \<Longrightarrow> (k, v) \<in> set tr \<Longrightarrow> \<exists>ns. v = Many ns" by simp
  qed
  then show ?thesis by (simp add: DFA deserialize_automaton_def serialize_automaton_def)
next
  case (NFA al st i f tr)
  have "load_transitions (if False then ''dfa'' else ''nfa'') (foldl (serialize_item False) [] tr) []
          = Inr tr"
  proof (rule roundtrip_transitions)
    show "distinct (map fst tr)" using assms(1) NFA by simp
    show "\<And>s a v. ((s, a), v) \<in> set tr \<Longrightarrow> CHR '','' \<notin> set s \<and> CHR '','' \<notin> set a"
      using assms(2) NFA by simp
    show "\<And>k v. \<not> False \<Longrightarrow> (k, v) \<in> set tr \<Longrightarrow> \<exists>ns. v = Many ns"
      using assms(3) NFA by simp
  qed
  then show ?thesis by (simp add: NFA deserialize_automaton_def serialize_automaton_def)
qed

section \<open>The round-trip law of the codec\<close>

text \<open>
  Claim C2. Let \<open>d\<close> be an assembled automaton, deterministic or nondeterministic: its
  transition dictionary has pairwise distinct keys, no state or symbol name of a key
  contains the separator \<open>,\<close>, and in the nondeterministic case every value is a sequence
  of states. Then decoding the encoding of \<open>d\<close> calls the constructor of the class of \<open>d\<close>
  with the arguments of \<open>d\<close> itself. So, \<open>d\<close> being an object that the engine constructed,
  decoding succeeds with a definition of the same kind, the same state set, alphabet,
  initial state and final set, and the same transition behaviour.
\<close>

theorem codec_roundtrip:
  assumes "distinct (map fst (transitions_of d))"
    and "\<forall>s a v. ((s, a), v) \<in> set (transitions_of d)
           \<longrightarrow> CHR '','' \<notin> set s \<and> CHR '','' \<notin> set a"
    and "\<not> is_DFA d \<longrightarrow> (\<forall>k v. (k, v) \<in> set (transitions_of d) \<longrightarrow> (\<exists>ns. v = Many ns))"
  shows "deserialize_automaton accepts (serialize_automaton d) = construct accepts d
         \<and> (accepts d \<longrightarrow>
              (\<exists>d'. deserialize_automaton accepts (serialize_automaton d) = Inr d'
                 \<and> is_DFA d' = is_DFA d
                 \<and> set (states_of d') = set (states_of d)
                 \<and> set (alphabet_of d') = set (alphabet_of d)
                 \<and> initial_of d' = initial_of d
                 \<and> set (final_of d') = set (final_of d)
                 \<and> map_of (transitions_of d') = map_of (transitions_of d)))"
proof -
  have "deserialize_automaton accepts (serialize_automaton d) = construct accepts d"
  proof (rule roundtrip_eq)
    show "distinct (map fst (transitions_of d))" by (rule assms(1))
    show "\<And>s a v. ((s, a), v) \<in> set (transitions_of d)
            \<Longrightarrow> CHR '','' \<notin> set s \<and> CHR '','' \<notin> set a"
      using assms(2) by blast
    show "\<And>k v. \<not> is_DFA d \<Longrightarrow> (k, v) \<in> set (transitions_of d) \<Longrightarrow> \<exists>ns. v = Many ns"
      using assms(3) by blast
  qed
  then show ?thesis by (simp add: construct_def)
qed

theorem codec_roundtrip_witness:
  "\<exists>d'. deserialize_automaton permissive
          (serialize_automaton
             (NFA [''0'', ''1''] [''q0'', ''q1''] (Some ''q0'') [''q1'']
                [((''q0'', ''0''), Many [''q0'']), ((''q0'', ''1''), Many [''q0'', ''q1''])]))
          = Inr d'
        \<and> \<not> is_DFA d'
        \<and> set (states_of d') = {''q0'', ''q1''}
        \<and> set (alphabet_of d') = {''0'', ''1''}
        \<and> initial_of d' = Some ''q0''
        \<and> set (final_of d') = {''q1''}
        \<and> map_of (transitions_of d') =
            map_of [((''q0'', ''0''), Many [''q0'']), ((''q0'', ''1''), Many [''q0'', ''q1''])]"
proof -
  let ?d = "NFA [''0'', ''1''] [''q0'', ''q1''] (Some ''q0'') [''q1'']
              [((''q0'', ''0''), Many [''q0'']), ((''q0'', ''1''), Many [''q0'', ''q1''])]"
  have h1: "distinct (map fst (transitions_of ?d))" by simp
  have h2: "\<forall>s a v. ((s, a), v) \<in> set (transitions_of ?d)
              \<longrightarrow> CHR '','' \<notin> set s \<and> CHR '','' \<notin> set a"
    by auto
  have h3: "\<not> is_DFA ?d \<longrightarrow> (\<forall>k v. (k, v) \<in> set (transitions_of ?d) \<longrightarrow> (\<exists>ns. v = Many ns))"
    by auto
  have h4: "permissive ?d" by (simp add: permissive_def)
  from codec_roundtrip[OF h1 h2 h3, of permissive] h4 obtain d' where
    "deserialize_automaton permissive (serialize_automaton ?d) = Inr d'"
    "is_DFA d' = is_DFA ?d" "set (states_of d') = set (states_of ?d)"
    "set (alphabet_of d') = set (alphabet_of ?d)" "initial_of d' = initial_of ?d"
    "set (final_of d') = set (final_of ?d)"
    "map_of (transitions_of d') = map_of (transitions_of ?d)"
    by blast
  then show ?thesis by (intro exI[of _ d']) simp
qed

section \<open>Malformed keys\<close>

text \<open>
  Claim C7, as the code has it. The key of a persisted transition is split at every
  separator \<open>,\<close>, and decoding fails with \<open>MalformedKey\<close> exactly when some key does not
  contain exactly one separator; the error names such a key. So a key with more than one
  separator makes decoding fail. The only other failure of decoding is a construction
  error of the engine, and it needs every key to contain exactly one separator and an
  engine that rejects a definition.
\<close>

theorem deserialize_fails_iff:
  "((\<exists>k. deserialize_automaton accepts data = Inl (MalformedKey k)) =
      (\<exists>k\<in>set (map fst (data_transitions data)). count_list k (CHR '','') \<noteq> 1))
   \<and> (\<forall>e. deserialize_automaton accepts data = Inl e \<longrightarrow>
         (e = ConstructionError
            \<and> (\<forall>k\<in>set (map fst (data_transitions data)). count_list k (CHR '','') = 1)
            \<and> (\<exists>a. \<not> accepts a))
         \<or> (\<exists>k\<in>set (map fst (data_transitions data)).
               e = MalformedKey k \<and> count_list k (CHR '','') \<noteq> 1))"
proof (cases "\<exists>k\<in>set (map fst (data_transitions data)). length (split k '','') \<noteq> 2")
  case True
  from load_transitions_fails[OF True, of "data_type data" "[]"]
  obtain k where "k \<in> set (map fst (data_transitions data))"
    and "load_transitions (data_type data) (data_transitions data) [] = Inl (MalformedKey k)"
    and "length (split k '','') \<noteq> 2"
    by blast
  then have "k \<in> set (map fst (data_transitions data))"
    "deserialize_automaton accepts data = Inl (MalformedKey k)"
    "count_list k (CHR '','') \<noteq> 1"
    by (simp_all add: deserialize_automaton_Inl length_split_comma)
  then show ?thesis by auto
next
  case False
  then have all: "\<forall>k\<in>set (map fst (data_transitions data)). length (split k '','') = 2"
    by blast
  then have cnt: "\<forall>k\<in>set (map fst (data_transitions data)). count_list k (CHR '','') = 1"
    by (simp add: length_split_comma)
  from load_transitions_total[OF all, of "data_type data" "[]"] obtain tr where
    "load_transitions (data_type data) (data_transitions data) [] = Inr tr" by blast
  from deserialize_automaton_Inr[OF this, of accepts] obtain a where
    d: "deserialize_automaton accepts data = construct accepts a" by blast
  have "\<And>e. deserialize_automaton accepts data = Inl e \<Longrightarrow>
          e = ConstructionError \<and> (\<exists>a. \<not> accepts a)"
    unfolding d construct_Inl by blast
  with cnt show ?thesis by auto
qed

theorem deserialize_fails_iff_witness:
  "(\<exists>k. deserialize_automaton permissive
          \<lparr>data_type = ''dfa'', data_alphabet = [''a''], data_states = [''q0'', ''q1''],
           data_initial = Some ''q0'', data_final = [''q1''],
           data_transitions = [(''q0,a'', Single ''q1''), (''q1'', Single ''q0'')]\<rparr>
          = Inl (MalformedKey k))
   \<and> count_list ''q1'' (CHR '','') \<noteq> 1"
  using deserialize_fails_iff
    [of permissive
        "\<lparr>data_type = ''dfa'', data_alphabet = [''a''], data_states = [''q0'', ''q1''],
          data_initial = Some ''q0'', data_final = [''q1''],
          data_transitions = [(''q0,a'', Single ''q1''), (''q1'', Single ''q0'')]\<rparr>"]
  by simp

theorem two_separators_rejected:
  "deserialize_automaton permissive
     \<lparr>data_type = ''dfa'', data_alphabet = [''a,b''], data_states = [''q0'', ''q1''],
      data_initial = Some ''q0'', data_final = [''q1''],
      data_transitions = [(''q0,a,b'', Single ''q1'')]\<rparr>
   = Inl (MalformedKey ''q0,a,b'')"
  by code_simp

section \<open>Decoding validates nothing itself\<close>

text \<open>
  Claim C10, as the code has it. Decoding performs no membership validation of its own.
  For every persisted record whose transition keys are pairwise distinct (it is a
  dictionary) and each split into two parts, decoding makes one constructor call, of the
  class that the type of the record names, with the alphabet, states, initial state and
  final states of the record as they are and one transition per item of the record, in
  the order of the record: the key of the item is the state, the separator and the symbol
  of the transition, and the value is the value of the item as it is for the type
  \<open>dfa\<close> and its conversion to a tuple otherwise (a list stays as it is, a string becomes
  the tuple of its characters). Decoding returns what the constructor returns: the
  definition when the engine accepts it, whether or not it satisfies the structural
  invariants, and otherwise the construction error of the engine.
\<close>

theorem deserialize_no_validation:
  assumes "distinct (map fst (data_transitions data))"
    and "\<forall>k\<in>set (map fst (data_transitions data)). length (split k '','') = 2"
  shows "\<exists>tr. deserialize_automaton accepts data =
                construct accepts
                  ((if data_type data = ''dfa'' then DFA else NFA)
                     (data_alphabet data) (data_states data) (data_initial data)
                     (data_final data) tr)
            \<and> map (\<lambda>item. fst (fst item) @ '','' @ snd (fst item)) tr
                = map fst (data_transitions data)
            \<and> map snd tr =
                map (\<lambda>item. if data_type data = ''dfa'' then snd item
                            else (case snd item of
                                    Single n \<Rightarrow> Many (map (\<lambda>c. [c]) n)
                                  | Many ns \<Rightarrow> Many ns))
                  (data_transitions data)"
proof -
  let ?ty = "data_type data"
  let ?tr = "map (load_item ?ty) (data_transitions data)"
  have "load_transitions ?ty (data_transitions data) [] = Inr ?tr"
    using load_transitions_ok[of "[]" "data_transitions data" ?ty] assms by simp
  then have call: "deserialize_automaton accepts data =
                construct accepts
                  ((if ?ty = ''dfa'' then DFA else NFA)
                     (data_alphabet data) (data_states data) (data_initial data)
                     (data_final data) ?tr)"
    by (rule deserialize_automaton_Inr)
  have keys: "map (\<lambda>item. fst (fst item) @ '','' @ snd (fst item)) ?tr
                = map fst (data_transitions data)"
  proof -
    have "fst (fst (load_item ?ty item)) @ '','' @ snd (fst (load_item ?ty item)) = fst item"
      if "item \<in> set (data_transitions data)" for item
    proof -
      from that assms(2) have "length (split (fst item) '','') = 2" by simp
      from two_part_key[OF this] show ?thesis
        by (cases item) (simp add: load_item_def)
    qed
    then show ?thesis by (simp add: comp_def)
  qed
  have vals: "map snd ?tr =
                map (\<lambda>item. if ?ty = ''dfa'' then snd item
                            else (case snd item of
                                    Single n \<Rightarrow> Many (map (\<lambda>c. [c]) n)
                                  | Many ns \<Rightarrow> Many ns))
                  (data_transitions data)"
  proof -
    have "snd (load_item ?ty item) =
            (if ?ty = ''dfa'' then snd item
             else (case snd item of
                     Single n \<Rightarrow> Many (map (\<lambda>c. [c]) n)
                   | Many ns \<Rightarrow> Many ns))" for item
      by (cases item; cases "snd item") (auto simp: load_item_def)
    then show ?thesis by (simp add: comp_def)
  qed
  from call keys vals show ?thesis by blast
qed

theorem deserialize_no_validation_witness:
  "(\<exists>tr. deserialize_automaton permissive
            \<lparr>data_type = ''dfa'', data_alphabet = [''0''], data_states = [''q0''],
             data_initial = Some ''zz'', data_final = [''q9''],
             data_transitions = [(''q0,1'', Single ''q7'')]\<rparr>
          = Inr (DFA [''0''] [''q0''] (Some ''zz'') [''q9''] tr)
        \<and> map (\<lambda>item. fst (fst item) @ '','' @ snd (fst item)) tr = [''q0,1'']
        \<and> map snd tr = [Single ''q7''])
   \<and> deserialize_automaton permissive
        \<lparr>data_type = ''dfa'', data_alphabet = [''0''], data_states = [''q0''],
         data_initial = Some ''zz'', data_final = [''q9''],
         data_transitions = [(''q0,1'', Single ''q7'')]\<rparr>
      = Inr (DFA [''0''] [''q0''] (Some ''zz'') [''q9''] [((''q0'', ''1''), Single ''q7'')])"
proof -
  let ?data = "\<lparr>data_type = ''dfa'', data_alphabet = [''0''], data_states = [''q0''],
      data_initial = Some ''zz'', data_final = [''q9''],
      data_transitions = [(''q0,1'', Single ''q7'')]\<rparr>"
  have h1: "distinct (map fst (data_transitions ?data))" by simp
  have h2: "\<forall>k\<in>set (map fst (data_transitions ?data)). length (split k '','') = 2"
    by (simp add: split_def startswith_def)
  have e: "deserialize_automaton permissive ?data
      = Inr (DFA [''0''] [''q0''] (Some ''zz'') [''q9''] [((''q0'', ''1''), Single ''q7'')])"
    by code_simp
  from deserialize_no_validation[OF h1 h2, of permissive]
  have "\<exists>tr. deserialize_automaton permissive ?data
          = Inr (DFA [''0''] [''q0''] (Some ''zz'') [''q9''] tr)
        \<and> map (\<lambda>item. fst (fst item) @ '','' @ snd (fst item)) tr = [''q0,1'']
        \<and> map snd tr = [Single ''q7'']"
    by (simp add: construct_def permissive_def)
  with e show ?thesis by blast
qed

theorem deserialize_rejected_by_engine:
  "deserialize_automaton (enforcing set)
     \<lparr>data_type = ''nfa'', data_alphabet = [''0'', ''1''], data_states = [''q0'', ''q1''],
      data_initial = Some ''zz'', data_final = [''q1''],
      data_transitions = [(''q0,1'', Many [''q0'', ''q1''])]\<rparr>
   = Inl ConstructionError"
  by code_simp

section \<open>Facts about the scan of \<open>parse_dot_file\<close>\<close>

lemma foldl_invariant:
  "P s \<Longrightarrow> (\<And>s x. P s \<Longrightarrow> P (f s x)) \<Longrightarrow> P (foldl f s xs)"
  by (induction xs arbitrary: s) auto

lemma add_final_frame:
  "transitions (add_final st p) = transitions st"
  "automaton_type (add_final st p) = automaton_type st"
  "initial_state (add_final st p) = initial_state st"
  "alphabet (add_final st p) = alphabet st"
  by (simp_all add: add_final_def Let_def)

lemma add_symbol_frame:
  "transitions (add_symbol st x) = transitions st"
  "automaton_type (add_symbol st x) = automaton_type st"
  "initial_state (add_symbol st x) = initial_state st"
  by (simp_all add: add_symbol_def)

lemma add_target_frame:
  "initial_state (add_target f t st x) = initial_state st"
  "alphabet (add_target f t st x) = alphabet st"
  by (simp_all add: add_target_def Let_def)

lemma add_target_transitions:
  "transitions (add_target f t st x) =
     dict_set (f, x) (dict_get (transitions st) (f, x) [] @ [t]) (transitions st)"
  by (simp add: add_target_def Let_def)

lemma add_target_type:
  "automaton_type (add_target f t st x) =
     (if 1 < length (dict_get (transitions st) (f, x) [] @ [t]) then Nfa
      else automaton_type st)"
  by (simp add: add_target_def Let_def)

lemma type_inv_add_final: "type_inv st \<Longrightarrow> type_inv (add_final st p)"
  by (simp add: type_inv_def add_final_frame)

lemma type_inv_add_symbol: "type_inv st \<Longrightarrow> type_inv (add_symbol st x)"
  by (simp add: type_inv_def add_symbol_frame)

lemma type_inv_add_target:
  assumes "type_inv st"
  shows "type_inv (add_target f t st x)"
proof -
  let ?tr = "transitions st"
  let ?k = "(f, x)"
  let ?new = "dict_get ?tr ?k [] @ [t]"
  let ?tr' = "dict_set ?k ?new ?tr"
  from assms have dist: "distinct (map fst ?tr)"
    and ne: "\<And>k v. (k, v) \<in> set ?tr \<Longrightarrow> v \<noteq> []"
    and ty: "(automaton_type st = Nfa) = (\<exists>k v. (k, v) \<in> set ?tr \<and> 1 < length v)"
    by (auto simp: type_inv_def)
  have d': "distinct (map fst ?tr')" using dist by (rule distinct_dict_set)
  have ne': "\<And>k v. (k, v) \<in> set ?tr' \<Longrightarrow> v \<noteq> []"
  proof -
    fix k v assume "(k, v) \<in> set ?tr'"
    with set_dict_set_subset[of ?k ?new ?tr] have "(k, v) = (?k, ?new) \<or> (k, v) \<in> set ?tr"
      by blast
    then show "v \<noteq> []"
    proof
      assume "(k, v) = (?k, ?new)"
      then show ?thesis by simp
    next
      assume "(k, v) \<in> set ?tr"
      then show ?thesis by (rule ne)
    qed
  qed
  have ty': "((if 1 < length ?new then Nfa else automaton_type st) = Nfa)
               = (\<exists>k v. (k, v) \<in> set ?tr' \<and> 1 < length v)"
  proof (cases "map_of ?tr ?k")
    case None
    then have fresh: "?k \<notin> set (map fst ?tr)" by (simp add: map_of_eq_None_iff)
    from None have new: "?new = [t]" by (simp add: dict_get_def)
    have "set ?tr' = insert (?k, [t]) (set ?tr)"
      using set_dict_set_fresh[OF fresh] new by simp
    then have "(\<exists>k v. (k, v) \<in> set ?tr' \<and> 1 < length v)
                 = (\<exists>k v. (k, v) \<in> set ?tr \<and> 1 < length v)"
      by auto
    with ty new show ?thesis by simp
  next
    case (Some old)
    then have "(?k, old) \<in> set ?tr" by (rule map_of_SomeD)
    then have "old \<noteq> []" by (rule ne)
    with Some have len: "1 < length ?new" by (cases old) (auto simp: dict_get_def)
    have "(?k, ?new) \<in> set ?tr'" by (rule dict_set_mem)
    with len have "\<exists>k v. (k, v) \<in> set ?tr' \<and> 1 < length v" by blast
    with len show ?thesis by simp
  qed
  show ?thesis
    unfolding type_inv_def add_target_transitions add_target_type
    using d' ne' ty' by blast
qed

lemma symbol_inv_add_final: "symbol_inv st \<Longrightarrow> symbol_inv (add_final st p)"
  by (simp add: symbol_inv_def add_final_frame)

lemma alphabet_foldl_add_symbol:
  "alphabet (foldl add_symbol st xs) = alphabet st \<union> {x \<in> set xs. x \<noteq> []}"
  by (induction xs arbitrary: st) (auto simp: add_symbol_def)

lemma transitions_foldl_add_symbol:
  "transitions (foldl add_symbol st xs) = transitions st"
  by (induction xs arbitrary: st) (auto simp: add_symbol_frame)

lemma alphabet_foldl_add_target:
  "alphabet (foldl (add_target f t) st xs) = alphabet st"
  by (induction xs arbitrary: st) (auto simp: add_target_frame)

lemma keys_foldl_add_target:
  "set (map fst (transitions (foldl (add_target f t) st xs)))
     = set (map fst (transitions st)) \<union> (\<lambda>x. (f, x)) ` set xs"
proof (induction xs arbitrary: st)
  case Nil
  then show ?case by simp
next
  case (Cons x xs)
  have "set (map fst (transitions (add_target f t st x)))
          = insert (f, x) (set (map fst (transitions st)))"
    unfolding add_target_transitions by (rule keys_dict_set)
  with Cons[of "add_target f t st x"] show ?case by auto
qed

lemma scan_line_shape:
  "(\<exists>ps. scan_line st raw = foldl add_final st ps)
   \<or> scan_line st raw = st
   \<or> (\<not> startswith (strip raw) ''null ->'' \<and>
       (\<exists>f t syms. scan_line st raw =
          foldl (add_target f t)
            (foldl add_symbol (st\<lparr>states := insert t (insert f (states st))\<rparr>) syms) syms))
   \<or> (startswith (strip raw) ''null ->'' \<and>
       (\<exists>name. scan_line st raw =
          st\<lparr>initial_state := Some name, states := insert name (states st)\<rparr>))"
proof -
  let ?line = "strip raw"
  consider (a) "startswith ?line ''node [shape = doublecircle]''"
    | (b) "\<not> startswith ?line ''node [shape = doublecircle]''"
          "startswith ?line ''node [shape = circle]''"
    | (c) "\<not> startswith ?line ''node [shape = doublecircle]''"
          "\<not> startswith ?line ''node [shape = circle]''"
          "contains ?line ''->'' \<and> \<not> startswith ?line ''null ->''"
    | (d) "\<not> startswith ?line ''node [shape = doublecircle]''"
          "\<not> startswith ?line ''node [shape = circle]''"
          "\<not> (contains ?line ''->'' \<and> \<not> startswith ?line ''null ->'')"
          "startswith ?line ''null ->''"
    | (e) "\<not> startswith ?line ''node [shape = doublecircle]''"
          "\<not> startswith ?line ''node [shape = circle]''"
          "\<not> (contains ?line ''->'' \<and> \<not> startswith ?line ''null ->'')"
          "\<not> startswith ?line ''null ->''"
    by blast
  then show ?thesis
  proof cases
    case a
    then have "scan_line st raw = foldl add_final st (split ?line '';'')"
      by (simp add: scan_line_def)
    then show ?thesis by blast
  next
    case b
    then have "scan_line st raw = st" by (simp add: scan_line_def)
    then show ?thesis by blast
  next
    case c
    then have "\<exists>f t syms. scan_line st raw =
          foldl (add_target f t)
            (foldl add_symbol (st\<lparr>states := insert t (insert f (states st))\<rparr>) syms) syms"
      unfolding scan_line_def Let_def by (simp only: if_True if_False simp_thms) blast
    with c show ?thesis by blast
  next
    case d
    then have "\<exists>name. scan_line st raw =
          st\<lparr>initial_state := Some name, states := insert name (states st)\<rparr>"
      unfolding scan_line_def Let_def by (simp only: if_True if_False simp_thms) blast
    with d show ?thesis by blast
  next
    case e
    then have "scan_line st raw = st"
      unfolding scan_line_def Let_def by (simp only: if_True if_False simp_thms)
    then show ?thesis by blast
  qed
qed

lemma type_inv_scan_line: "type_inv st \<Longrightarrow> type_inv (scan_line st raw)"
proof -
  assume inv: "type_inv st"
  have upd: "\<And>f. type_inv (st\<lparr>states := f\<rparr>)" "\<And>i f. type_inv (st\<lparr>initial_state := i, states := f\<rparr>)"
    using inv by (simp_all add: type_inv_def)
  from scan_line_shape[of st raw] show ?thesis
  proof (elim disjE conjE exE)
    fix ps assume "scan_line st raw = foldl add_final st ps"
    then show ?thesis using inv by (simp add: foldl_invariant type_inv_add_final)
  next
    assume "scan_line st raw = st"
    then show ?thesis using inv by simp
  next
    fix f t syms
    assume eq: "scan_line st raw =
          foldl (add_target f t)
            (foldl add_symbol (st\<lparr>states := insert t (insert f (states st))\<rparr>) syms) syms"
    have "type_inv (foldl add_symbol (st\<lparr>states := insert t (insert f (states st))\<rparr>) syms)"
      by (rule foldl_invariant) (simp_all add: upd type_inv_add_symbol)
    then show ?thesis unfolding eq
      by (rule foldl_invariant) (simp add: type_inv_add_target)
  next
    fix name
    assume "scan_line st raw = st\<lparr>initial_state := Some name, states := insert name (states st)\<rparr>"
    then show ?thesis by (simp add: upd)
  qed
qed

lemma symbol_inv_edge:
  assumes "symbol_inv st"
  shows "symbol_inv (foldl (add_target f t) (foldl add_symbol (st\<lparr>states := S\<rparr>) syms) syms)"
proof -
  let ?st2 = "foldl add_symbol (st\<lparr>states := S\<rparr>) syms"
  let ?st3 = "foldl (add_target f t) ?st2 syms"
  have al: "alphabet ?st3 = alphabet st \<union> {x \<in> set syms. x \<noteq> []}"
    by (simp add: alphabet_foldl_add_target alphabet_foldl_add_symbol)
  have keys: "set (map fst (transitions ?st3))
                = set (map fst (transitions st)) \<union> (\<lambda>x. (f, x)) ` set syms"
    using keys_foldl_add_target[of f t ?st2 syms] by (simp add: transitions_foldl_add_symbol)
  from assms have e: "[] \<notin> alphabet st" by (simp add: symbol_inv_def)
  from assms have old0:
    "\<forall>s a v. ((s, a), v) \<in> set (transitions st) \<longrightarrow> a = [] \<or> a \<in> alphabet st"
    by (simp add: symbol_inv_def)
  have old: "a = [] \<or> a \<in> alphabet st" if "(s, a) \<in> set (map fst (transitions st))" for s a
  proof -
    from that obtain v where "((s, a), v) \<in> set (transitions st)" by auto
    with old0 show ?thesis by blast
  qed
  have "\<And>s a v. ((s, a), v) \<in> set (transitions ?st3) \<Longrightarrow> a = [] \<or> a \<in> alphabet ?st3"
  proof -
    fix s a v assume "((s, a), v) \<in> set (transitions ?st3)"
    then have "(s, a) \<in> set (map fst (transitions ?st3))" by force
    with keys have "(s, a) \<in> set (map fst (transitions st)) \<or> a \<in> set syms" by auto
    then show "a = [] \<or> a \<in> alphabet ?st3"
    proof
      assume "(s, a) \<in> set (map fst (transitions st))"
      from old[OF this] show ?thesis using al by blast
    next
      assume "a \<in> set syms"
      then show ?thesis using al by blast
    qed
  qed
  moreover have "[] \<notin> alphabet ?st3" using e al by simp
  ultimately show ?thesis unfolding symbol_inv_def by blast
qed

lemma symbol_inv_scan_line: "symbol_inv st \<Longrightarrow> symbol_inv (scan_line st raw)"
proof -
  assume inv: "symbol_inv st"
  have upd: "\<And>i f. symbol_inv (st\<lparr>initial_state := i, states := f\<rparr>)"
    using inv by (simp_all add: symbol_inv_def)
  from scan_line_shape[of st raw] show ?thesis
  proof (elim disjE conjE exE)
    fix ps assume "scan_line st raw = foldl add_final st ps"
    then show ?thesis using inv by (simp add: foldl_invariant symbol_inv_add_final)
  next
    assume "scan_line st raw = st"
    then show ?thesis using inv by simp
  next
    fix f t syms
    assume eq: "scan_line st raw =
          foldl (add_target f t)
            (foldl add_symbol (st\<lparr>states := insert t (insert f (states st))\<rparr>) syms) syms"
    show ?thesis unfolding eq using inv by (rule symbol_inv_edge)
  next
    fix name
    assume "scan_line st raw = st\<lparr>initial_state := Some name, states := insert name (states st)\<rparr>"
    then show ?thesis by (simp add: upd)
  qed
qed

lemma type_inv_scan_source: "type_inv (scan_source src)"
  unfolding scan_source_def
proof (rule foldl_invariant)
  show "type_inv scan_init" by (simp add: type_inv_def scan_init_def)
  show "\<And>s x. type_inv s \<Longrightarrow> type_inv (scan_line s x)" by (rule type_inv_scan_line)
qed

lemma symbol_inv_scan_source: "symbol_inv (scan_source src)"
  unfolding scan_source_def
proof (rule foldl_invariant)
  show "symbol_inv scan_init" by (simp add: symbol_inv_def scan_init_def)
  show "\<And>s x. symbol_inv s \<Longrightarrow> symbol_inv (scan_line s x)" by (rule symbol_inv_scan_line)
qed

lemma initial_state_foldl_add_final:
  "initial_state (foldl add_final st ps) = initial_state st"
  by (induction ps arbitrary: st) (auto simp: add_final_frame)

lemma initial_state_foldl_add_symbol:
  "initial_state (foldl add_symbol st xs) = initial_state st"
  by (induction xs arbitrary: st) (auto simp: add_symbol_frame)

lemma initial_state_foldl_add_target:
  "initial_state (foldl (add_target f t) st xs) = initial_state st"
  by (induction xs arbitrary: st) (auto simp: add_target_frame)

lemma initial_state_scan_line:
  "\<not> startswith (strip raw) ''null ->'' \<Longrightarrow> initial_state (scan_line st raw) = initial_state st"
  using scan_line_shape[of st raw]
  by (auto simp: initial_state_foldl_add_final initial_state_foldl_add_symbol
        initial_state_foldl_add_target)

lemma initial_state_foldl_scan_line:
  "\<forall>l\<in>set ls. \<not> startswith (strip l) ''null ->'' \<Longrightarrow>
     initial_state (foldl scan_line st ls) = initial_state st"
  by (induction ls arbitrary: st) (auto simp: initial_state_scan_line)

section \<open>Facts about the finalization of \<open>parse_dot_file\<close>\<close>

lemma process_transitions_nfa: "\<exists>p. process_transitions Nfa d acc = Inr p"
  by (induction d arbitrary: acc) auto

lemma process_transitions_dfa_ok:
  "\<forall>k v. (k, v) \<in> set d \<longrightarrow> length v = 1 \<Longrightarrow> \<exists>p. process_transitions Dfa d acc = Inr p"
proof (induction d arbitrary: acc)
  case Nil
  then show ?case by simp
next
  case (Cons item d)
  obtain s a v where item: "item = ((s, a), v)" by (cases item) auto
  from Cons.prems have "length v = 1" by (simp add: item)
  moreover from Cons.prems have "\<forall>k v. (k, v) \<in> set d \<longrightarrow> length v = 1" by simp
  ultimately show ?case using Cons.IH by (simp add: item)
qed

lemma process_transitions_dfa_fails:
  "(k, v) \<in> set d \<Longrightarrow> length v \<noteq> 1 \<Longrightarrow>
     \<exists>s a ns. process_transitions Dfa d acc = Inl (InconsistentDeterminism s a ns)
        \<and> ((s, a), ns) \<in> set d \<and> length ns \<noteq> 1"
proof (induction d arbitrary: acc)
  case Nil
  then show ?case by simp
next
  case (Cons item d)
  obtain s a ns where item: "item = ((s, a), ns)" by (cases item) auto
  show ?case
  proof (cases "length ns = 1")
    case True
    with Cons.prems have "(k, v) \<in> set d" by (auto simp: item)
    from Cons.IH[OF this Cons.prems(2)] True show ?thesis
      by (simp add: item) blast
  next
    case False
    then show ?thesis by (simp add: item)
  qed
qed

lemma process_transitions_keys:
  "process_transitions ty d acc = Inr p \<Longrightarrow>
     set (map fst p) = set (map fst acc) \<union> set (map fst d)"
proof (induction d arbitrary: acc)
  case Nil
  then show ?case by simp
next
  case (Cons item d)
  obtain s a ns where item: "item = ((s, a), ns)" by (cases item) auto
  from Cons.prems obtain w where
    "process_transitions ty d (dict_set (s, a) w acc) = Inr p"
    by (auto simp: item split: if_splits)
  from Cons.IH[OF this] keys_dict_set[of "(s, a)" w acc] show ?case
    by (simp add: item)
qed

lemma foldl_insert: "foldl (\<lambda>S n. insert n S) S ns = S \<union> set ns"
  by (induction ns arbitrary: S) auto

lemma close_step_eq:
  "close_step sts ((s, a), v) = insert s sts \<union> targets v"
  by (cases v) (auto simp: close_step_def foldl_insert)

lemma close_states_eq:
  "close_states sts p = sts \<union> (\<Union>item\<in>set p. insert (fst (fst item)) (targets (snd item)))"
  unfolding close_states_def
proof (induction p arbitrary: sts)
  case Nil
  then show ?case by simp
next
  case (Cons item p)
  obtain s a v where item: "item = ((s, a), v)" by (cases item) auto
  show ?case by (simp add: Cons.IH item close_step_eq) blast
qed

lemma parse_dot_file_result:
  "\<exists>p a. process_transitions (automaton_type (scan_source src))
              (transitions (scan_source src)) [] = Inr p
     \<and> a = (if automaton_type (scan_source src) = Dfa then DFA else NFA)
              (alphabet (scan_source src)) (close_states (states (scan_source src)) p)
              (initial_state (scan_source src)) (final_states (scan_source src)) p
     \<and> parse_dot_file accepts src =
         (if accepts a then Inr (a, automaton_type (scan_source src))
          else Inl ConstructionError)"
proof -
  let ?st = "scan_source src"
  have inv: "type_inv ?st" by (rule type_inv_scan_source)
  have "\<exists>p. process_transitions (automaton_type ?st) (transitions ?st) [] = Inr p"
  proof (cases "automaton_type ?st")
    case Dfa
    with inv have "\<forall>k v. (k, v) \<in> set (transitions ?st) \<longrightarrow> length v = 1"
      unfolding type_inv_def
      by (metis One_nat_def Suc_lessI kind.distinct(1) length_greater_0_conv)
    from process_transitions_dfa_ok[OF this] Dfa show ?thesis by simp
  next
    case Nfa
    with process_transitions_nfa show ?thesis by simp
  qed
  then obtain p where p: "process_transitions (automaton_type ?st) (transitions ?st) [] = Inr p"
    by blast
  let ?a = "(if automaton_type ?st = Dfa then DFA else NFA)
              (alphabet ?st) (close_states (states ?st) p)
              (initial_state ?st) (final_states ?st) p"
  have "parse_dot_file accepts src =
         (if accepts ?a then Inr (?a, automaton_type ?st) else Inl ConstructionError)"
    using p
    by (cases "automaton_type ?st") (simp_all add: parse_dot_file_def Let_def construct_def)
  with p show ?thesis by blast
qed

section \<open>The accumulated target lists in terms of the text\<close>

lemma dict_get_dict_set:
  "dict_get (dict_set k v d) k' dflt = (if k' = k then v else dict_get d k' dflt)"
  by (simp add: dict_get_def map_of_dict_set)

lemma transitions_foldl_add_final:
  "transitions (foldl add_final st ps) = transitions st"
  by (induction ps arbitrary: st) (auto simp: add_final_frame)

lemma scan_line_edge:
  assumes "is_edge_line raw"
  shows "scan_line st raw =
           foldl (add_target (edge_from raw) (edge_to raw))
             (foldl add_symbol
                (st\<lparr>states := insert (edge_to raw) (insert (edge_from raw) (states st))\<rparr>)
                (edge_symbols raw))
             (edge_symbols raw)"
  using assms
  unfolding scan_line_def is_edge_line_def edge_from_def edge_to_def edge_symbols_def
    edge_label_def edge_label_match_def Let_def
  by simp

lemma scan_line_not_edge:
  assumes "\<not> is_edge_line raw"
  shows "transitions (scan_line st raw) = transitions st"
proof -
  from scan_line_shape[of st raw] show ?thesis
  proof (elim disjE conjE exE)
    fix ps assume "scan_line st raw = foldl add_final st ps"
    then show ?thesis by (simp add: transitions_foldl_add_final)
  next
    assume "scan_line st raw = st"
    then show ?thesis by simp
  next
    fix f t syms
    assume n: "\<not> startswith (strip raw) ''null ->''"
      and eq: "scan_line st raw =
          foldl (add_target f t)
            (foldl add_symbol (st\<lparr>states := insert t (insert f (states st))\<rparr>) syms) syms"
    show ?thesis
    proof (cases "startswith (strip raw) ''node [shape = doublecircle]''")
      case True
      then have "scan_line st raw = foldl add_final st (split (strip raw) '';'')"
        by (simp add: scan_line_def)
      then show ?thesis by (simp add: transitions_foldl_add_final)
    next
      case dc: False
      show ?thesis
      proof (cases "startswith (strip raw) ''node [shape = circle]''")
        case True
        with dc have "scan_line st raw = st" by (simp add: scan_line_def)
        then show ?thesis by simp
      next
        case False
        with dc n assms have "\<not> contains (strip raw) ''->''"
          by (simp add: is_edge_line_def)
        with dc False n have "scan_line st raw = st"
          unfolding scan_line_def Let_def by (simp only: if_True if_False simp_thms)
        then show ?thesis by simp
      qed
    qed
  next
    fix name
    assume "scan_line st raw = st\<lparr>initial_state := Some name, states := insert name (states st)\<rparr>"
    then show ?thesis by simp
  qed
qed

lemma dict_get_add_target:
  "dict_get (transitions (add_target f t st x)) k [] =
     (if k = (f, x) then dict_get (transitions st) k [] @ [t] else dict_get (transitions st) k [])"
  by (simp add: add_target_transitions dict_get_dict_set)

lemma dict_get_foldl_add_target:
  "dict_get (transitions (foldl (add_target f t) st xs)) (s, a) [] =
     dict_get (transitions st) (s, a) [] @
       (if s = f then replicate (count_list xs a) t else [])"
proof (induction xs arbitrary: st)
  case Nil
  then show ?case by simp
next
  case (Cons x xs)
  show ?case by (simp add: Cons.IH dict_get_add_target)
qed

lemma scan_line_entries:
  "dict_get (transitions (scan_line st raw)) k [] =
     dict_get (transitions st) k [] @ line_targets k raw"
proof (cases "is_edge_line raw")
  case True
  obtain s a where k: "k = (s, a)" by (cases k)
  from True show ?thesis
    by (simp add: k scan_line_edge dict_get_foldl_add_target transitions_foldl_add_symbol
          line_targets_def)
next
  case False
  then show ?thesis by (simp add: scan_line_not_edge line_targets_def)
qed

lemma foldl_scan_line_entries:
  "dict_get (transitions (foldl scan_line st ls)) k [] =
     dict_get (transitions st) k [] @ concat (map (line_targets k) ls)"
  by (induction ls arbitrary: st) (simp_all add: scan_line_entries)

lemma scan_source_entries:
  "dict_get (transitions (scan_source src)) k [] =
     concat (map (line_targets k) (split src ''\<newline>''))"
proof -
  have "dict_get (transitions scan_init) k [] = []"
    by (simp add: scan_init_def dict_get_def)
  then show ?thesis
    unfolding scan_source_def foldl_scan_line_entries by simp
qed

lemma type_inv_mem:
  assumes "type_inv st"
  shows "((k, v) \<in> set (transitions st)) = (v \<noteq> [] \<and> dict_get (transitions st) k [] = v)"
proof -
  from assms have dist: "distinct (map fst (transitions st))"
    and ne: "\<And>k v. (k, v) \<in> set (transitions st) \<Longrightarrow> v \<noteq> []"
    by (auto simp: type_inv_def)
  show ?thesis
  proof
    assume m: "(k, v) \<in> set (transitions st)"
    with dist have "map_of (transitions st) k = Some v" by simp
    with ne[OF m] show "v \<noteq> [] \<and> dict_get (transitions st) k [] = v"
      by (simp add: dict_get_def)
  next
    assume a: "v \<noteq> [] \<and> dict_get (transitions st) k [] = v"
    then obtain w where "map_of (transitions st) k = Some w"
      by (cases "map_of (transitions st) k") (auto simp: dict_get_def)
    moreover from this a have "w = v" by (simp add: dict_get_def)
    ultimately show "(k, v) \<in> set (transitions st)" by (auto dest: map_of_SomeD)
  qed
qed

lemma nfa_iff_entries:
  "(automaton_type (scan_source src) = Nfa) =
     (\<exists>k. 1 < length (concat (map (line_targets k) (split src ''\<newline>''))))"
proof -
  let ?st = "scan_source src"
  have inv: "type_inv ?st" by (rule type_inv_scan_source)
  then have "(automaton_type ?st = Nfa) = (\<exists>k v. (k, v) \<in> set (transitions ?st) \<and> 1 < length v)"
    by (simp add: type_inv_def)
  also have "\<dots> = (\<exists>k. 1 < length (dict_get (transitions ?st) k []))"
  proof
    assume "\<exists>k v. (k, v) \<in> set (transitions ?st) \<and> 1 < length v"
    then obtain k v where "(k, v) \<in> set (transitions ?st)" "1 < length v" by blast
    with type_inv_mem[OF inv, of k v] have "1 < length (dict_get (transitions ?st) k [])"
      by simp
    then show "\<exists>k. 1 < length (dict_get (transitions ?st) k [])" by (rule exI)
  next
    assume "\<exists>k. 1 < length (dict_get (transitions ?st) k [])"
    then obtain k where k: "1 < length (dict_get (transitions ?st) k [])" by blast
    then have "dict_get (transitions ?st) k [] \<noteq> []" by auto
    with type_inv_mem[OF inv, of k "dict_get (transitions ?st) k []"] k
    show "\<exists>k v. (k, v) \<in> set (transitions ?st) \<and> 1 < length v" by blast
  qed
  finally show ?thesis by (simp add: scan_source_entries)
qed

lemma edge_symbols_not_Nil: "edge_symbols raw \<noteq> []"
  by (simp add: edge_symbols_def split_def split_from_not_Nil)

lemma line_targets_first_symbol:
  "is_edge_line l \<Longrightarrow> 1 \<le> length (line_targets (edge_from l, hd (edge_symbols l)) l)"
  using edge_symbols_not_Nil[of l]
  by (cases "edge_symbols l") (simp_all add: line_targets_def)

lemma repeated_edge_line_nfa:
  assumes "split src ''\<newline>'' = xs @ l # ys @ l # zs" and "is_edge_line l"
  shows "automaton_type (scan_source src) = Nfa"
proof -
  let ?k = "(edge_from l, hd (edge_symbols l))"
  from line_targets_first_symbol[OF assms(2)]
  have "1 < length (concat (map (line_targets ?k) (split src ''\<newline>'')))"
    by (simp add: assms(1))
  then show ?thesis unfolding nfa_iff_entries by blast
qed

section \<open>Facts about the constructor call of \<open>parse_dot_file\<close>\<close>

lemma parse_dot_file_engine:
  assumes "parse_dot_file permissive src = Inr (a, ty)"
  shows "parse_dot_file accepts src = (if accepts a then Inr (a, ty) else Inl ConstructionError)"
proof -
  from parse_dot_file_result[of src permissive] obtain p b where
    p: "process_transitions (automaton_type (scan_source src))
          (transitions (scan_source src)) [] = Inr p"
    and b: "b = (if automaton_type (scan_source src) = Dfa then DFA else NFA)
              (alphabet (scan_source src)) (close_states (states (scan_source src)) p)
              (initial_state (scan_source src)) (final_states (scan_source src)) p"
    and r: "parse_dot_file permissive src =
              (if permissive b then Inr (b, automaton_type (scan_source src))
               else Inl ConstructionError)"
    by blast
  from r assms have ab: "a = b" "ty = automaton_type (scan_source src)"
    by (simp_all add: permissive_def)
  from parse_dot_file_result[of src accepts] obtain p' b' where
    p': "process_transitions (automaton_type (scan_source src))
          (transitions (scan_source src)) [] = Inr p'"
    and b': "b' = (if automaton_type (scan_source src) = Dfa then DFA else NFA)
              (alphabet (scan_source src)) (close_states (states (scan_source src)) p')
              (initial_state (scan_source src)) (final_states (scan_source src)) p'"
    and r': "parse_dot_file accepts src =
              (if accepts b' then Inr (b', automaton_type (scan_source src))
               else Inl ConstructionError)"
    by blast
  from p p' have "p' = p" by simp
  with b b' have "b' = b" by simp
  with r' ab show ?thesis by simp
qed

lemma scenario1_permissive:
  "parse_dot_file permissive scenario1 =
     Inr (DFA {''0'', ''1''} {''q0'', ''q1''} (Some ''q0'') {''q1''}
            [((''q0'', ''0''), Single ''q0''), ((''q0'', ''1''), Single ''q1''),
             ((''q1'', ''0''), Single ''q1''), ((''q1'', ''1''), Single ''q0'')],
          Dfa)"
  by code_simp

section \<open>The concrete reconstruction scenario\<close>

text \<open>
  Claim C8. The graph text \<open>scenario1\<close> (the node \<open>q1\<close> on the double-circle line, the
  start edge to \<open>q0\<close>, and the labelled edges \<open>q0 -> q0\<close> on \<open>0\<close>, \<open>q0 -> q1\<close> on \<open>1\<close>,
  \<open>q1 -> q1\<close> on \<open>0\<close>, \<open>q1 -> q0\<close> on \<open>1\<close>) is reconstructed as a deterministic automaton
  with alphabet \<open>{0, 1}\<close>, states \<open>{q0, q1}\<close>, initial state \<open>q0\<close>, final states \<open>{q1}\<close>
  and exactly these four transitions, each with one target: \<open>parse_dot_file\<close> calls the
  constructor \<open>DFA\<close> with exactly these arguments and, the engine accepting them, returns
  the automaton with the kind \<open>dfa\<close>.
\<close>

theorem scenario1_reconstructed:
  "parse_dot_file accepts scenario1 =
     (if accepts (DFA {''0'', ''1''} {''q0'', ''q1''} (Some ''q0'') {''q1''}
            [((''q0'', ''0''), Single ''q0''), ((''q0'', ''1''), Single ''q1''),
             ((''q1'', ''0''), Single ''q1''), ((''q1'', ''1''), Single ''q0'')])
      then Inr (DFA {''0'', ''1''} {''q0'', ''q1''} (Some ''q0'') {''q1''}
            [((''q0'', ''0''), Single ''q0''), ((''q0'', ''1''), Single ''q1''),
             ((''q1'', ''0''), Single ''q1''), ((''q1'', ''1''), Single ''q0'')],
          Dfa)
      else Inl ConstructionError)"
  using scenario1_permissive by (rule parse_dot_file_engine)

theorem scenario1_reconstructed_witness:
  "parse_dot_file permissive scenario1 =
     Inr (DFA {''0'', ''1''} {''q0'', ''q1''} (Some ''q0'') {''q1''}
            [((''q0'', ''0''), Single ''q0''), ((''q0'', ''1''), Single ''q1''),
             ((''q1'', ''0''), Single ''q1''), ((''q1'', ''1''), Single ''q0'')],
          Dfa)"
  using scenario1_reconstructed[of permissive] by (simp add: permissive_def)

section \<open>Kind inference\<close>

text \<open>
  Claim C1, as the code has it. For every graph text, the scan classifies the automaton
  nondeterministic if and only if some (source, symbol) pair accumulated more than one
  target entry during the scan. The entries of a pair are, in the order of the text, one
  entry for each occurrence of the symbol in the label of a transition line with that
  source; a target that occurs again counts again, since the test is on the length of
  the accumulated list and not on its distinct entries. In particular, a text in which
  every (source, symbol) pair accumulated exactly one entry is classified deterministic,
  and a text in which the same transition line occurs twice is classified
  nondeterministic. The constructor that \<open>parse_dot_file\<close> calls is the one of the
  inferred kind, and a successful reconstruction returns that kind.
\<close>

theorem kind_inference:
  "((automaton_type (scan_source src) = Nfa)
      = (\<exists>k v. (k, v) \<in> set (transitions (scan_source src)) \<and> 1 < length v))
   \<and> (\<forall>k. dict_get (transitions (scan_source src)) k []
            = concat (map (line_targets k) (split src ''\<newline>'')))
   \<and> ((\<forall>k v. (k, v) \<in> set (transitions (scan_source src)) \<longrightarrow> length v = 1)
        \<longrightarrow> automaton_type (scan_source src) = Dfa)
   \<and> (\<forall>xs l ys zs. split src ''\<newline>'' = xs @ l # ys @ l # zs \<and> is_edge_line l
        \<longrightarrow> automaton_type (scan_source src) = Nfa)
   \<and> (\<exists>a. is_DFA a = (automaton_type (scan_source src) = Dfa)
          \<and> parse_dot_file accepts src =
              (if accepts a then Inr (a, automaton_type (scan_source src))
               else Inl ConstructionError))"
proof -
  let ?st = "scan_source src"
  have iff: "(automaton_type ?st = Nfa)
      = (\<exists>k v. (k, v) \<in> set (transitions ?st) \<and> 1 < length v)"
    using type_inv_scan_source[of src] by (simp add: type_inv_def)
  have one: "(\<forall>k v. (k, v) \<in> set (transitions ?st) \<longrightarrow> length v = 1)
        \<longrightarrow> automaton_type ?st = Dfa"
  proof
    assume a: "\<forall>k v. (k, v) \<in> set (transitions ?st) \<longrightarrow> length v = 1"
    have "automaton_type ?st \<noteq> Nfa"
    proof
      assume "automaton_type ?st = Nfa"
      with iff obtain k v where "(k, v) \<in> set (transitions ?st)" "1 < length v" by blast
      with a show False by fastforce
    qed
    then show "automaton_type ?st = Dfa" by (cases "automaton_type ?st") auto
  qed
  have rep: "\<forall>xs l ys zs. split src ''\<newline>'' = xs @ l # ys @ l # zs \<and> is_edge_line l
        \<longrightarrow> automaton_type ?st = Nfa"
    using repeated_edge_line_nfa by blast
  from parse_dot_file_result[of src accepts] obtain p a where
    "a = (if automaton_type ?st = Dfa then DFA else NFA)
              (alphabet ?st) (close_states (states ?st) p)
              (initial_state ?st) (final_states ?st) p"
    and r: "parse_dot_file accepts src =
         (if accepts a then Inr (a, automaton_type ?st) else Inl ConstructionError)"
    by blast
  then have "is_DFA a = (automaton_type ?st = Dfa)"
    by (cases "automaton_type ?st") auto
  with r have call: "\<exists>a. is_DFA a = (automaton_type ?st = Dfa)
          \<and> parse_dot_file accepts src =
              (if accepts a then Inr (a, automaton_type ?st) else Inl ConstructionError)"
    by blast
  from iff scan_source_entries one rep call show ?thesis by blast
qed

theorem kind_inference_witness:
  \<open>automaton_type
      (scan_source ''null -> a;\<newline>a -> b [label = "0"];\<newline>a -> c [label = "0"];'') = Nfa
   \<and> automaton_type
      (scan_source ''null -> a;\<newline>a -> b [label = "0"];\<newline>a -> c [label = "1"];'') = Dfa
   \<and> automaton_type
      (scan_source ''null -> a;\<newline>a -> b [label = "0"];\<newline>a -> b [label = "0"];'') = Nfa\<close>
proof -
  have e1: \<open>transitions
      (scan_source ''null -> a;\<newline>a -> b [label = "0"];\<newline>a -> c [label = "0"];'')
       = [((''a'', ''0''), [''b'', ''c''])]\<close>
    by code_simp
  have e2: \<open>transitions
      (scan_source ''null -> a;\<newline>a -> b [label = "0"];\<newline>a -> c [label = "1"];'')
       = [((''a'', ''0''), [''b'']), ((''a'', ''1''), [''c''])]\<close>
    by code_simp
  have e3: \<open>split ''null -> a;\<newline>a -> b [label = "0"];\<newline>a -> b [label = "0"];'' ''\<newline>''
       = [''null -> a;''] @ ''a -> b [label = "0"];'' # [] @ ''a -> b [label = "0"];'' # []\<close>
    by code_simp
  have e4: \<open>is_edge_line ''a -> b [label = "0"];''\<close>
    by code_simp
  from kind_inference
    [of \<open>''null -> a;\<newline>a -> b [label = "0"];\<newline>a -> c [label = "0"];''\<close> permissive] e1
  have w1: \<open>automaton_type
      (scan_source ''null -> a;\<newline>a -> b [label = "0"];\<newline>a -> c [label = "0"];'') = Nfa\<close>
    by auto
  from kind_inference
    [of \<open>''null -> a;\<newline>a -> b [label = "0"];\<newline>a -> c [label = "1"];''\<close> permissive] e2
  have w2: \<open>automaton_type
      (scan_source ''null -> a;\<newline>a -> b [label = "0"];\<newline>a -> c [label = "1"];'') = Dfa\<close>
    by auto
  from kind_inference
    [of \<open>''null -> a;\<newline>a -> b [label = "0"];\<newline>a -> b [label = "0"];''\<close> permissive] e3 e4
  have w3: \<open>automaton_type
      (scan_source ''null -> a;\<newline>a -> b [label = "0"];\<newline>a -> b [label = "0"];'') = Nfa\<close>
    by blast
  from w1 w2 w3 show ?thesis by blast
qed

theorem repeated_edge_classified_nfa:
  \<open>transitions
     (scan_source ''null -> a;\<newline>a -> b [label = "0"];\<newline>a -> b [label = "0"];'')
     = [((''a'', ''0''), [''b'', ''b''])]
   \<and> automaton_type
     (scan_source ''null -> a;\<newline>a -> b [label = "0"];\<newline>a -> b [label = "0"];'') = Nfa
   \<and> parse_dot_file permissive
       ''null -> a;\<newline>a -> b [label = "0"];\<newline>a -> b [label = "0"];''
     = Inr (NFA {''0''} {''a'', ''b''} (Some ''a'') {} [((''a'', ''0''), Many [''b''])], Nfa)\<close>
  by code_simp

text \<open>
  One transition line whose label repeats a symbol also gives two entries for one pair.
\<close>

lemma repeated_symbol_classified_nfa:
  \<open>transitions (scan_source ''null -> a;\<newline>a -> b [label = "0,0"];'')
     = [((''a'', ''0''), [''b'', ''b''])]
   \<and> automaton_type (scan_source ''null -> a;\<newline>a -> b [label = "0,0"];'') = Nfa\<close>
  by code_simp

section \<open>Graph text without a start edge\<close>

text \<open>
  Claim C5, as the code has it. For every graph text in which no line, stripped, starts
  with \<open>null ->\<close>, the reconstructor makes no check of the initial state and raises no
  error of its own: the scan leaves the initial state \<open>None\<close>, and the constructor of the
  engine is called with the initial state \<open>None\<close>. The reconstruction fails, with the
  construction error of the engine and without a definition, exactly when the engine
  rejects these arguments; when it accepts them, the definition produced has the initial
  state \<open>None\<close>.
\<close>

theorem no_start_edge_initial_None:
  assumes "\<forall>l\<in>set (split src ''\<newline>''). \<not> startswith (strip l) ''null ->''"
  shows "initial_state (scan_source src) = None
         \<and> (\<exists>a. initial_of a = None
               \<and> parse_dot_file accepts src =
                   (if accepts a then Inr (a, automaton_type (scan_source src))
                    else Inl ConstructionError))"
proof -
  have "initial_state (scan_source src) = initial_state scan_init"
    unfolding scan_source_def using assms by (rule initial_state_foldl_scan_line)
  then have n: "initial_state (scan_source src) = None" by (simp add: scan_init_def)
  from parse_dot_file_result[of src accepts] obtain p a where
    a: "a = (if automaton_type (scan_source src) = Dfa then DFA else NFA)
              (alphabet (scan_source src)) (close_states (states (scan_source src)) p)
              (initial_state (scan_source src)) (final_states (scan_source src)) p"
    and r: "parse_dot_file accepts src =
         (if accepts a then Inr (a, automaton_type (scan_source src))
          else Inl ConstructionError)"
    by blast
  from a n have "initial_of a = None"
    by (cases "automaton_type (scan_source src)") auto
  with n r show ?thesis by blast
qed

theorem no_start_edge_initial_None_witness:
  \<open>parse_dot_file (enforcing id) ''a -> b [label = "0"];\<newline>a -> c [label = "0"];''
     = Inl ConstructionError
   \<and> initial_state (scan_source ''a -> b [label = "0"];\<newline>a -> c [label = "0"];'') = None\<close>
proof -
  have h: \<open>\<forall>l\<in>set (split ''a -> b [label = "0"];\<newline>a -> c [label = "0"];'' ''\<newline>'').
             \<not> startswith (strip l) ''null ->''\<close>
    by code_simp
  from no_start_edge_initial_None[OF h, of "enforcing id"] obtain a where
    n: \<open>initial_state (scan_source ''a -> b [label = "0"];\<newline>a -> c [label = "0"];'') = None\<close>
    and i: "initial_of a = None"
    and r: \<open>parse_dot_file (enforcing id) ''a -> b [label = "0"];\<newline>a -> c [label = "0"];''
         = (if enforcing id a
            then Inr (a, automaton_type
                          (scan_source ''a -> b [label = "0"];\<newline>a -> c [label = "0"];''))
            else Inl ConstructionError)\<close>
    by blast
  from i have "\<not> enforcing id a" by (auto simp: enforcing_def)
  with r n show ?thesis by simp
qed

theorem no_start_edge_definition_produced:
  \<open>parse_dot_file permissive ''q0 -> q1 [label = "a"];''
     = Inr (DFA {''a''} {''q0'', ''q1''} None {} [((''q0'', ''a''), Single ''q1'')], Dfa)\<close>
  by code_simp

section \<open>Closure of a reconstructed definition\<close>

text \<open>
  Claim C6, as the code has it. In every successfully reconstructed definition, the source
  and every target of every transition are members of the state set, and every non-empty
  symbol of a transition key is a member of the alphabet. The empty symbol, which an
  unlabelled transition line gives, is never a member of the alphabet.
\<close>

theorem reconstructed_closure:
  assumes "parse_dot_file accepts src = Inr (a, ty)"
  shows "(\<forall>s sym v. ((s, sym), v) \<in> set (transitions_of a) \<longrightarrow>
             s \<in> states_of a \<and> targets v \<subseteq> states_of a
             \<and> (sym \<noteq> [] \<longrightarrow> sym \<in> alphabet_of a))
         \<and> [] \<notin> alphabet_of a"
proof -
  let ?st = "scan_source src"
  from parse_dot_file_result[of src accepts] obtain p b where
    p: "process_transitions (automaton_type ?st) (transitions ?st) [] = Inr p"
    and b: "b = (if automaton_type ?st = Dfa then DFA else NFA)
              (alphabet ?st) (close_states (states ?st) p)
              (initial_state ?st) (final_states ?st) p"
    and r: "parse_dot_file accepts src =
         (if accepts b then Inr (b, automaton_type ?st) else Inl ConstructionError)"
    by blast
  from r assms have "a = b" by (cases "accepts b") simp_all
  with b have al: "alphabet_of a = alphabet ?st"
    and sts: "states_of a = close_states (states ?st) p"
    and tr: "transitions_of a = p"
    by (cases "automaton_type ?st"; simp)+
  have inv: "symbol_inv ?st" by (rule symbol_inv_scan_source)
  have keys: "set (map fst p) = set (map fst (transitions ?st))"
    using process_transitions_keys[OF p] by simp
  have "s \<in> states_of a \<and> targets v \<subseteq> states_of a \<and> (sym \<noteq> [] \<longrightarrow> sym \<in> alphabet_of a)"
    if mem: "((s, sym), v) \<in> set (transitions_of a)" for s sym v
  proof -
    from mem have "s \<in> states_of a \<and> targets v \<subseteq> states_of a"
      unfolding sts tr close_states_eq by force
    moreover have "sym \<noteq> [] \<longrightarrow> sym \<in> alphabet_of a"
    proof -
      from mem have "(s, sym) \<in> set (map fst p)" unfolding tr by force
      with keys obtain w where "((s, sym), w) \<in> set (transitions ?st)" by auto
      with inv show ?thesis unfolding symbol_inv_def al by blast
    qed
    ultimately show ?thesis by blast
  qed
  moreover have "[] \<notin> alphabet_of a" using inv by (simp add: symbol_inv_def al)
  ultimately show ?thesis by blast
qed

theorem reconstructed_closure_witness:
  \<open>parse_dot_file permissive ''null -> q0;\<newline>q0 -> q1 [label = "a"];\<newline>q1 -> q0''
     = Inr (DFA {''a''} {''q0'', ''q1''} (Some ''q0'') {}
              [((''q0'', ''a''), Single ''q1''), ((''q1'', ''''), Single ''q0'')], Dfa)
   \<and> ''q1'' \<in> states_of (DFA {''a''} {''q0'', ''q1''} (Some ''q0'') {}
              [((''q0'', ''a''), Single ''q1''), ((''q1'', ''''), Single ''q0'')])
   \<and> ''a'' \<in> alphabet_of (DFA {''a''} {''q0'', ''q1''} (Some ''q0'') {}
              [((''q0'', ''a''), Single ''q1''), ((''q1'', ''''), Single ''q0'')])
   \<and> '''' \<notin> alphabet_of (DFA {''a''} {''q0'', ''q1''} (Some ''q0'') {}
              [((''q0'', ''a''), Single ''q1''), ((''q1'', ''''), Single ''q0'')])\<close>
proof -
  have e: \<open>parse_dot_file permissive ''null -> q0;\<newline>q0 -> q1 [label = "a"];\<newline>q1 -> q0''
     = Inr (DFA {''a''} {''q0'', ''q1''} (Some ''q0'') {}
              [((''q0'', ''a''), Single ''q1''), ((''q1'', ''''), Single ''q0'')], Dfa)\<close>
    by code_simp
  from reconstructed_closure[OF e] e show ?thesis by simp
qed

theorem unlabelled_symbol_outside_alphabet:
  \<open>parse_dot_file permissive ''q0 -> q1''
     = Inr (DFA {} {''q0'', ''q1''} None {} [((''q0'', ''''), Single ''q1'')], Dfa)\<close>
  by code_simp

section \<open>The guard on deterministic finalization\<close>

text \<open>
  Claim C9. When the finalization runs with the classification deterministic on a table in
  which some (source, symbol) pair has more than one distinct target, it fails with
  \<open>InconsistentDeterminism\<close>, and the error names a pair of the table and its target list,
  which is not a singleton. And for every graph text and every engine, \<open>parse_dot_file\<close>
  never ends in this failure.
\<close>

theorem determinism_guard:
  "((k, v) \<in> set tr \<and> 1 < card (set v) \<longrightarrow>
      (\<exists>s a ns. process_transitions Dfa tr acc = Inl (InconsistentDeterminism s a ns)
          \<and> ((s, a), ns) \<in> set tr \<and> length ns \<noteq> 1))
   \<and> parse_dot_file accepts src \<noteq> Inl (InconsistentDeterminism s' a' ns')"
proof -
  have "\<exists>s a ns. process_transitions Dfa tr acc = Inl (InconsistentDeterminism s a ns)
          \<and> ((s, a), ns) \<in> set tr \<and> length ns \<noteq> 1"
    if mem: "(k, v) \<in> set tr" and c: "1 < card (set v)"
  proof -
    have "card (set v) \<le> length v" by (rule card_length)
    with c have "length v \<noteq> 1" by simp
    with mem show ?thesis by (rule process_transitions_dfa_fails)
  qed
  moreover have "parse_dot_file accepts src \<noteq> Inl (InconsistentDeterminism s' a' ns')"
  proof -
    from parse_dot_file_result[of src accepts] obtain b where
      "parse_dot_file accepts src =
         (if accepts b then Inr (b, automaton_type (scan_source src))
          else Inl ConstructionError)"
      by blast
    then show ?thesis by (cases "accepts b") simp_all
  qed
  ultimately show ?thesis by blast
qed

theorem determinism_guard_witness:
  \<open>process_transitions Dfa [((''q0'', ''0''), [''q0'']), ((''q0'', ''1''), [''q1'', ''q2''])] []
     = Inl (InconsistentDeterminism ''q0'' ''1'' [''q1'', ''q2''])
   \<and> parse_dot_file permissive
        ''null -> q0;\<newline>q0 -> q1 [label = "1"];\<newline>q0 -> q2 [label = "1"];''
       \<noteq> Inl (InconsistentDeterminism ''q0'' ''1'' [''q1'', ''q2''])\<close>
  using determinism_guard
    [of \<open>(''q0'', ''1'')\<close> \<open>[''q1'', ''q2'']\<close>
        \<open>[((''q0'', ''0''), [''q0'']), ((''q0'', ''1''), [''q1'', ''q2''])]\<close> \<open>[]\<close>
        permissive
        \<open>''null -> q0;\<newline>q0 -> q1 [label = "1"];\<newline>q0 -> q2 [label = "1"];''\<close>
        \<open>''q0''\<close> \<open>''1''\<close> \<open>[''q1'', ''q2'']\<close>]
  by auto

section \<open>Facts about the flat builders\<close>

lemma nfa_step_ok:
  assumes "valid_nfa_record alph sts t"
  shows "build_nfa_transitions alph sts (t # ts) tr =
           build_nfa_transitions alph sts ts
             (dict_set (record_key t) (dict_get tr (record_key t) [] @ record_targets t) tr)"
proof -
  from assms have len: "\<not> length (map strip (split t '','')) < 3"
    and st: "map strip (split t '','') ! 0 \<in> set sts"
    and sy: "map strip (split t '','') ! 1 \<in> set alph"
    and tg: "find (\<lambda>ns. ns \<notin> set sts) (drop 2 (map strip (split t '',''))) = None"
    by (auto simp: valid_nfa_record_def record_parts_def record_key_def record_targets_def
          find_None_iff)
  show ?thesis
    using len st sy tg
    by (cases "map_of tr (record_key t)")
       (simp_all add: Let_def dict_get_def record_parts_def record_key_def record_targets_def)
qed

lemma nfa_step_bad:
  assumes "\<not> valid_nfa_record alph sts t"
  shows "\<exists>e. build_nfa_transitions alph sts (t # ts) tr = Inl e"
proof -
  have "find (\<lambda>ns. ns \<notin> set sts) (drop 2 (map strip (split t '',''))) = None
          \<Longrightarrow> set (record_targets t) \<subseteq> set sts"
    by (auto simp: find_None_iff record_targets_def record_parts_def)
  with assms show ?thesis
    by (auto simp: Let_def valid_nfa_record_def record_parts_def record_key_def
          split: option.splits)
qed

lemma nfa_build_succeeds_iff:
  "(\<exists>tr'. build_nfa_transitions alph sts ts tr = Inr tr') = (\<forall>t\<in>set ts. valid_nfa_record alph sts t)"
proof (induction ts arbitrary: tr)
  case Nil
  then show ?case by simp
next
  case (Cons t ts)
  show ?case
  proof (cases "valid_nfa_record alph sts t")
    case True
    then show ?thesis
      using Cons.IH by (simp add: nfa_step_ok del: build_nfa_transitions.simps)
  next
    case False
    from nfa_step_bad[OF False, of ts tr] False show ?thesis by auto
  qed
qed

lemma nfa_build_value:
  "build_nfa_transitions alph sts ts tr = Inr tr' \<Longrightarrow>
     dict_get tr' k [] =
       dict_get tr k [] @ concat (map record_targets (filter (\<lambda>t. record_key t = k) ts))"
proof (induction ts arbitrary: tr)
  case Nil
  then show ?case by simp
next
  case (Cons t ts)
  have v: "valid_nfa_record alph sts t"
  proof (rule ccontr)
    assume "\<not> valid_nfa_record alph sts t"
    from nfa_step_bad[OF this, of ts tr] Cons.prems show False by auto
  qed
  from Cons.prems have
    "build_nfa_transitions alph sts ts
       (dict_set (record_key t) (dict_get tr (record_key t) [] @ record_targets t) tr) = Inr tr'"
    by (simp add: nfa_step_ok[OF v] del: build_nfa_transitions.simps)
  from Cons.IH[OF this] show ?case
    by (simp add: dict_get_dict_set)
qed

lemma dfa_build_appends:
  "build_dfa_transitions alph sts ts tr = Inr tr' \<Longrightarrow> distinct (map fst tr) \<Longrightarrow>
     tr' = tr @ map (\<lambda>t. (record_key t, record_parts t ! 2)) ts \<and> distinct (map fst tr')"
proof (induction ts arbitrary: tr)
  case Nil
  then show ?case by simp
next
  case (Cons t ts)
  let ?k = "record_key t"
  let ?n = "record_parts t ! 2"
  from Cons.prems(1) have fresh: "map_of tr ?k = None"
    and rest: "build_dfa_transitions alph sts ts (dict_set ?k ?n tr) = Inr tr'"
    by (auto simp: Let_def record_key_def record_parts_def split: if_splits)
  from fresh have nk: "?k \<notin> set (map fst tr)" by (simp add: map_of_eq_None_iff)
  then have ds: "dict_set ?k ?n tr = tr @ [(?k, ?n)]" by (rule dict_set_fresh)
  have "distinct (map fst (dict_set ?k ?n tr))" using Cons.prems(2) by (rule distinct_dict_set)
  from Cons.IH[OF rest this]
  have a: "tr' = dict_set ?k ?n tr @ map (\<lambda>t. (record_key t, record_parts t ! 2)) ts"
    and b: "distinct (map fst tr')"
    by blast+
  from a have "tr' = tr @ map (\<lambda>t. (record_key t, record_parts t ! 2)) (t # ts)"
    by (simp add: ds)
  with b show ?case by blast
qed

lemma dfa_build_no_duplicates:
  "build_dfa_transitions alph sts ts [] = Inr tr \<Longrightarrow>
     distinct (map record_key ts) \<and> tr = map (\<lambda>t. (record_key t, record_parts t ! 2)) ts"
  using dfa_build_appends[of alph sts ts "[]" tr] by (auto simp: comp_def)

lemma dfa_build_duplicate_rejected:
  "build_dfa_transitions [''0''] [''q0'', ''q1''] [''q0,0,q0'', ''q0,0,q1''] []
     = Inl (DuplicateTransition ''q0'' ''0'')"
  by code_simp

section \<open>Duplicate pairs in a deterministic flat build\<close>

text \<open>
  Claim C3 asks every entry point that builds a deterministic table from flat records to
  reject a second definition of a (state, symbol) pair. The loop of main3-0.py does
  (\<open>dfa_build_no_duplicates\<close>, \<open>dfa_build_duplicate_rejected\<close>). The loop of
  fsm_creator.py has no such check: on the records \<open>q0,0,q0\<close> and \<open>q0,0,q1\<close> it ends
  with the single entry \<open>(q0, 0) \<mapsto> q1\<close>, the earlier target overwritten.
\<close>

theorem fsm_creator_overwrites:
  "enter_dfa_transitions [''0''] [''q0'', ''q1''] [''q0,0,q0'', ''q0,0,q1'', ''done''] []
     = Inr [((''q0'', ''0''), ''q1'')]"
  by code_simp

section \<open>Accumulation in a nondeterministic flat build\<close>

text \<open>
  Claim C4, as the code has it. In every successful nondeterministic flat build, the value
  accumulated for a (state, symbol) pair is the concatenation, in record order, of the
  target lists of the records with that pair; so its set of entries is the union of those
  target lists, and any list of the same records in another order builds successfully
  with the same set of entries for every pair. The accumulated tuple itself may contain
  an entry more than once.
\<close>

theorem nfa_accumulation:
  assumes "build_nfa_transitions alph sts ts [] = Inr tr"
  shows "(\<forall>k. dict_get tr k [] =
               concat (map record_targets (filter (\<lambda>t. record_key t = k) ts)))
       \<and> (\<forall>k. set (dict_get tr k []) =
               (\<Union>t\<in>{t \<in> set ts. record_key t = k}. set (record_targets t)))
       \<and> (\<forall>ts'. set ts' = set ts \<longrightarrow>
             (\<exists>tr'. build_nfa_transitions alph sts ts' [] = Inr tr'
                \<and> (\<forall>k. set (dict_get tr' k []) = set (dict_get tr k []))))"
proof -
  have val: "dict_get r k [] = concat (map record_targets (filter (\<lambda>t. record_key t = k) rs))"
    if "build_nfa_transitions alph sts rs [] = Inr r" for rs r k
    using nfa_build_value[OF that, of k] by (simp add: dict_get_def)
  have sets: "set (dict_get r k []) = (\<Union>t\<in>{t \<in> set rs. record_key t = k}. set (record_targets t))"
    if "build_nfa_transitions alph sts rs [] = Inr r" for rs r k
    unfolding val[OF that] by auto
  have perm: "\<exists>tr'. build_nfa_transitions alph sts ts' [] = Inr tr'
                \<and> (\<forall>k. set (dict_get tr' k []) = set (dict_get tr k []))"
    if eq: "set ts' = set ts" for ts'
  proof -
    from assms have "\<forall>t\<in>set ts. valid_nfa_record alph sts t"
      using nfa_build_succeeds_iff[of alph sts ts "[]"] by blast
    with eq have "\<forall>t\<in>set ts'. valid_nfa_record alph sts t" by simp
    then obtain tr' where b: "build_nfa_transitions alph sts ts' [] = Inr tr'"
      using nfa_build_succeeds_iff[of alph sts ts' "[]"] by blast
    have "\<forall>k. set (dict_get tr' k []) = set (dict_get tr k [])"
      by (simp add: sets[OF b] sets[OF assms] eq)
    with b show ?thesis by blast
  qed
  from val[OF assms] sets[OF assms] perm show ?thesis by blast
qed

theorem nfa_accumulation_witness:
  "build_nfa_transitions [''1''] [''q0'', ''q1'', ''q2''] [''q0,1,q0,q1'', ''q0,1,q2''] []
     = Inr [((''q0'', ''1''), [''q0'', ''q1'', ''q2''])]
   \<and> (\<exists>tr'. build_nfa_transitions [''1''] [''q0'', ''q1'', ''q2''] [''q0,1,q2'', ''q0,1,q0,q1''] []
               = Inr tr'
            \<and> set (dict_get tr' (''q0'', ''1'') []) = {''q0'', ''q1'', ''q2''})"
proof -
  have e: "build_nfa_transitions [''1''] [''q0'', ''q1'', ''q2''] [''q0,1,q0,q1'', ''q0,1,q2''] []
     = Inr [((''q0'', ''1''), [''q0'', ''q1'', ''q2''])]"
    by code_simp
  have s: "set [''q0,1,q2'', ''q0,1,q0,q1''] = set [''q0,1,q0,q1'', ''q0,1,q2'']" by auto
  from nfa_accumulation[OF e] s obtain tr' where
    b: "build_nfa_transitions [''1''] [''q0'', ''q1'', ''q2''] [''q0,1,q2'', ''q0,1,q0,q1''] [] = Inr tr'"
    and v: "\<forall>k. set (dict_get tr' k []) = set (dict_get [((''q0'', ''1''), [''q0'', ''q1'', ''q2''])] k [])"
    by blast
  from v have "set (dict_get tr' (''q0'', ''1'') [])
                 = set (dict_get [((''q0'', ''1''), [''q0'', ''q1'', ''q2''])] (''q0'', ''1'') [])"
    by blast
  then have "set (dict_get tr' (''q0'', ''1'') []) = {''q0'', ''q1'', ''q2''}"
    by (simp add: dict_get_def)
  with b e show ?thesis by blast
qed

theorem nfa_accumulation_repeats_entry:
  "build_nfa_transitions [''1''] [''q0'', ''q1''] [''q0,1,q0,q1'', ''q0,1,q1''] []
     = Inr [((''q0'', ''1''), [''q0'', ''q1'', ''q1''])]"
  by code_simp

end
